theory Spec2Isabelle
  imports Main
begin

section \<open>CLOCK replacer\<close>

text \<open>
  Source: \<open>buffer/clock_replacer.cpp\<close>. The replacer owns \<open>num_pages\<close> reference flags
  (\<open>ref_flag\<close>) and a rotating \<open>pointer\<close>; the fields are named as in the source, without
  its trailing underscore.
  Frame ids are array indices; an access outside the allocated flag array is undefined
  behaviour in C++ and is the result \<open>None\<close> here, as is the remainder by zero in
  \<open>NextSlot\<close>. The latch only serialises callers and is left out of the sequential model.
\<close>

record clock_replacer =
  num_pages :: nat
  pointer :: nat
  ref_flag :: "bool list"

definition ClockReplacer :: "nat \<Rightarrow> clock_replacer" where
  "ClockReplacer n =
     \<lparr>num_pages = n, pointer = 0, ref_flag = replicate n False\<rparr>"

definition NextSlot :: "clock_replacer \<Rightarrow> nat \<Rightarrow> nat" where
  "NextSlot r slot = (slot + 1) mod num_pages r"

text \<open>
  The loop of \<open>Victim\<close>: the first argument counts the iterations that are left
  (\<open>num_pages - i\<close>), the second is \<open>current\<close>.
\<close>

fun Victim_loop :: "clock_replacer \<Rightarrow> nat \<Rightarrow> nat \<Rightarrow> (nat option \<times> clock_replacer) option" where
  "Victim_loop r 0 current = Some (None, r)"
| "Victim_loop r (Suc k) current =
     (if length (ref_flag r) \<le> current then None
      else if \<not> ref_flag r ! current then Victim_loop r k (NextSlot r current)
      else Some (Some current,
                 r\<lparr>ref_flag := (ref_flag r)[current := False],
                   pointer := NextSlot r current\<rparr>))"

definition Victim :: "clock_replacer \<Rightarrow> (nat option \<times> clock_replacer) option" where
  "Victim r = Victim_loop r (num_pages r) (pointer r)"

definition Pin :: "clock_replacer \<Rightarrow> nat \<Rightarrow> clock_replacer option" where
  "Pin r frame_id =
     (if num_pages r = 0 \<or> length (ref_flag r) \<le> frame_id then None
      else Some (r\<lparr>pointer := NextSlot r frame_id,
                   ref_flag := (ref_flag r)[frame_id := False]\<rparr>))"

definition Unpin :: "clock_replacer \<Rightarrow> nat \<Rightarrow> clock_replacer option" where
  "Unpin r frame_id =
     (if length (ref_flag r) \<le> frame_id then None
      else Some (r\<lparr>ref_flag := (ref_flag r)[frame_id := True]\<rparr>))"

definition Size :: "clock_replacer \<Rightarrow> nat" where
  "Size r = length (filter (\<lambda>b. b) (take (num_pages r) (ref_flag r)))"

text \<open>
  The states the constructor and the three operations produce: the flag array has
  \<open>num_pages\<close> entries and the pointer is a slot of it.
\<close>

definition replacer_ok :: "clock_replacer \<Rightarrow> bool" where
  "replacer_ok r =
     (length (ref_flag r) = num_pages r \<and> (pointer r < num_pages r \<or> num_pages r = 0))"

text \<open>A sequence of calls on a replacer, for replaying a history from the constructor.\<close>

datatype replacer_call = CallUnpin nat | CallPin nat | CallVictim

fun replay :: "clock_replacer \<Rightarrow> replacer_call list \<Rightarrow> clock_replacer option" where
  "replay r [] = Some r"
| "replay r (CallUnpin f # cs) =
     (case Unpin r f of None \<Rightarrow> None | Some r' \<Rightarrow> replay r' cs)"
| "replay r (CallPin f # cs) =
     (case Pin r f of None \<Rightarrow> None | Some r' \<Rightarrow> replay r' cs)"
| "replay r (CallVictim # cs) =
     (case Victim r of None \<Rightarrow> None | Some (_, r') \<Rightarrow> replay r' cs)"

subsection \<open>The second-chance policy as the specification words it\<close>

text \<open>
  This second replacer follows the specification's text, not the source: every slot has a
  reference bit and a candidate mark (set by Unpin, removed by Pin and by being chosen).
  Victim takes up to \<open>2 * num_frames\<close> steps from the pointer; a set bit is cleared and
  passed over, a clear bit on a candidate slot is returned and the pointer moves past it.
\<close>

record second_chance =
  sc_num_frames :: nat
  sc_pointer :: nat
  sc_bit :: "bool list"
  sc_candidate :: "bool list"

definition sc_new :: "nat \<Rightarrow> second_chance" where
  "sc_new n = \<lparr>sc_num_frames = n, sc_pointer = 0,
               sc_bit = replicate n False, sc_candidate = replicate n False\<rparr>"

fun sc_scan :: "nat \<Rightarrow> second_chance \<Rightarrow> nat option \<times> second_chance" where
  "sc_scan 0 r = (None, r)"
| "sc_scan (Suc k) r =
     (let c = sc_pointer r; next = (c + 1) mod sc_num_frames r in
      if sc_bit r ! c
      then sc_scan k (r\<lparr>sc_bit := (sc_bit r)[c := False], sc_pointer := next\<rparr>)
      else if sc_candidate r ! c
      then (Some c, r\<lparr>sc_candidate := (sc_candidate r)[c := False], sc_pointer := next\<rparr>)
      else sc_scan k (r\<lparr>sc_pointer := next\<rparr>))"

definition sc_Victim :: "second_chance \<Rightarrow> nat option \<times> second_chance" where
  "sc_Victim r = sc_scan (2 * sc_num_frames r) r"

definition sc_Pin :: "second_chance \<Rightarrow> nat \<Rightarrow> second_chance" where
  "sc_Pin r f = r\<lparr>sc_bit := (sc_bit r)[f := False], sc_candidate := (sc_candidate r)[f := False]\<rparr>"

definition sc_Unpin :: "second_chance \<Rightarrow> nat \<Rightarrow> second_chance" where
  "sc_Unpin r f = r\<lparr>sc_bit := (sc_bit r)[f := True], sc_candidate := (sc_candidate r)[f := True]\<rparr>"

fun sc_replay :: "second_chance \<Rightarrow> replacer_call list \<Rightarrow> second_chance" where
  "sc_replay r [] = r"
| "sc_replay r (CallUnpin f # cs) = sc_replay (sc_Unpin r f) cs"
| "sc_replay r (CallPin f # cs) = sc_replay (sc_Pin r f) cs"
| "sc_replay r (CallVictim # cs) = sc_replay (snd (sc_Victim r)) cs"

section \<open>B+tree node pages\<close>

text \<open>
  Sources: \<open>storage/page/b_plus_tree_leaf_page.cpp\<close> and
  \<open>storage/page/b_plus_tree_internal_page.cpp\<close>. A node is a view over a page: the
  shared header, then the slot array that fills the rest of the page. The list \<open>array\<close> holds every slot of the page, so its length is the
  slot capacity and the slots from \<open>node_size\<close> on hold whatever was last written there.
  Reading or writing a slot outside the page is undefined behaviour and is \<open>None\<close>.
  The source's field \<open>size_\<close> is \<open>node_size\<close> here, and the leaf's \<open>next_page_id_\<close> is
  \<open>leaf_next_page_id\<close>; the internal page's \<open>array_\<close> is \<open>internal_array\<close>.
\<close>

datatype index_page_type = INVALID_INDEX_PAGE | LEAF_PAGE | INTERNAL_PAGE

text \<open>
  Modelled from the spec: \<open>common/config.h\<close> is not among the sources; the specification
  gives the sentinel page id as \<open>-1\<close>.
\<close>

definition INVALID_PAGE_ID :: int where
  "INVALID_PAGE_ID = - 1"

text \<open>
  Modelled from the spec: \<open>b_plus_tree_page.cpp\<close> and the page headers are not among the
  sources. The shared header has the fields the specification lists (page type, size,
  max size, parent page id, own page id); \<open>GetSize\<close> reads the size and \<open>IncreaseSize\<close>
  adds to it.
\<close>

record b_plus_tree_page =
  page_type :: index_page_type
  node_size :: int
  max_size :: int
  parent_page_id :: int
  node_page_id :: int

definition GetSize :: "'a b_plus_tree_page_scheme \<Rightarrow> int" where
  "GetSize p = node_size p"

definition IncreaseSize :: "'a b_plus_tree_page_scheme \<Rightarrow> int \<Rightarrow> 'a b_plus_tree_page_scheme" where
  "IncreaseSize p amount = p\<lparr>node_size := node_size p + amount\<rparr>"

record ('k, 'v) leaf_page = b_plus_tree_page +
  leaf_next_page_id :: int
  array :: "('k \<times> 'v) list"

record 'k internal_page = b_plus_tree_page +
  internal_array :: "('k \<times> int) list"

text \<open>
  Modelled from the spec: the comparator class is not among the sources. The node
  operations take the comparator as an argument, as the source does; this is the
  three-way comparison of a linear order that the generic comparator computes.
\<close>

definition GenericComparator :: "'k::linorder \<Rightarrow> 'k \<Rightarrow> int" where
  "GenericComparator a b = (if a < b then - 1 else if b < a then 1 else 0)"

text \<open>A comparator that agrees with the linear order of the keys.\<close>

definition three_way :: "('k::linorder \<Rightarrow> 'k \<Rightarrow> int) \<Rightarrow> bool" where
  "three_way comparator =
     (\<forall>a b. (comparator a b < 0) = (a < b) \<and> (comparator a b = 0) = (a = b))"

text \<open>Slot access with the bounds of the page written out.\<close>

definition slot_get :: "'a list \<Rightarrow> int \<Rightarrow> 'a option" where
  "slot_get xs i = (if 0 \<le> i \<and> i < int (length xs) then Some (xs ! nat i) else None)"

definition slot_set :: "'a list \<Rightarrow> int \<Rightarrow> 'a \<Rightarrow> 'a list option" where
  "slot_set xs i v = (if 0 \<le> i \<and> i < int (length xs) then Some (xs[nat i := v]) else None)"

text \<open>
  \<open>for (int i = from; i > to; i--) array_[i] = array_[i - 1];\<close>
\<close>

function shift_right :: "'a list \<Rightarrow> int \<Rightarrow> int \<Rightarrow> 'a list option" where
  "shift_right xs i to =
     (if i > to then
        (case slot_get xs (i - 1) of
           None \<Rightarrow> None
         | Some e \<Rightarrow>
             (case slot_set xs i e of
                None \<Rightarrow> None
              | Some xs' \<Rightarrow> shift_right xs' (i - 1) to))
      else Some xs)"
  by pat_completeness auto
termination
  by (relation "measure (\<lambda>(xs, i, to). nat (i - to))") auto

declare shift_right.simps [simp del]

text \<open>
  \<open>for (int i = from; i < n; i++) array_[i] = array_[i + 1];\<close>
\<close>

function shift_left :: "'a list \<Rightarrow> int \<Rightarrow> int \<Rightarrow> 'a list option" where
  "shift_left xs i n =
     (if i < n then
        (case slot_get xs (i + 1) of
           None \<Rightarrow> None
         | Some e \<Rightarrow>
             (case slot_set xs i e of
                None \<Rightarrow> None
              | Some xs' \<Rightarrow> shift_left xs' (i + 1) n))
      else Some xs)"
  by pat_completeness auto
termination
  by (relation "measure (\<lambda>(xs, i, n). nat (n - i))") auto

declare shift_left.simps [simp del]

subsection \<open>Leaf page\<close>

definition Init :: "('k, 'v) leaf_page \<Rightarrow> int \<Rightarrow> int \<Rightarrow> int \<Rightarrow> ('k, 'v) leaf_page" where
  "Init p pid parent_id max_sz =
     p\<lparr>page_type := LEAF_PAGE, node_page_id := pid, parent_page_id := parent_id,
       node_size := 0, max_size := max_sz, leaf_next_page_id := INVALID_PAGE_ID\<rparr>"

definition KeyAt :: "('k, 'v) leaf_page \<Rightarrow> int \<Rightarrow> 'k option" where
  "KeyAt p index = map_option fst (slot_get (array p) index)"

text \<open>
  The binary search of \<open>KeyIndex\<close>. The shift \<open>(right - left) >> 1\<close> is only taken with
  \<open>left \<le> right\<close>, where it is the division by two.
\<close>

function KeyIndex_loop ::
  "('k, 'v) leaf_page \<Rightarrow> 'k \<Rightarrow> ('k \<Rightarrow> 'k \<Rightarrow> int) \<Rightarrow> int \<Rightarrow> int \<Rightarrow> int option" where
  "KeyIndex_loop p key comparator left right =
     (if left \<le> right then
        (case KeyAt p (left + (right - left) div 2) of
           None \<Rightarrow> None
         | Some k \<Rightarrow>
             if comparator k key \<ge> 0
             then KeyIndex_loop p key comparator left (left + (right - left) div 2 - 1)
             else KeyIndex_loop p key comparator (left + (right - left) div 2 + 1) right)
      else Some (right + 1))"
  by pat_completeness auto
termination
  by (relation "measure (\<lambda>(p, key, comparator, left, right). nat (right - left + 1))") auto

declare KeyIndex_loop.simps [simp del]

definition KeyIndex :: "('k, 'v) leaf_page \<Rightarrow> 'k \<Rightarrow> ('k \<Rightarrow> 'k \<Rightarrow> int) \<Rightarrow> int option" where
  "KeyIndex p key comparator = KeyIndex_loop p key comparator 0 (GetSize p - 1)"

text \<open>
  \<open>Insert\<close> returns the size of the node after the call, with the node. It compares the
  key in slot \<open>KeyIndex\<close> with the new key without asking whether that slot is below
  \<open>GetSize\<close>.
\<close>

definition Insert ::
  "('k, 'v) leaf_page \<Rightarrow> 'k \<Rightarrow> 'v \<Rightarrow> ('k \<Rightarrow> 'k \<Rightarrow> int) \<Rightarrow> (int \<times> ('k, 'v) leaf_page) option" where
  "Insert p key val comparator =
     (case KeyIndex p key comparator of
        None \<Rightarrow> None
      | Some insert_index \<Rightarrow>
          (case KeyAt p insert_index of
             None \<Rightarrow> None
           | Some k \<Rightarrow>
               if comparator k key = 0 then Some (GetSize p, p)
               else
                 (case shift_right (array p) (GetSize p) insert_index of
                    None \<Rightarrow> None
                  | Some a1 \<Rightarrow>
                      (case slot_set a1 insert_index (key, val) of
                         None \<Rightarrow> None
                       | Some a2 \<Rightarrow>
                           Some (GetSize p + 1, IncreaseSize (p\<lparr>array := a2\<rparr>) 1)))))"

text \<open>
  \<open>Lookup\<close>: \<open>Some None\<close> is the result \<open>false\<close>, \<open>Some (Some v)\<close> is \<open>true\<close> with
  \<open>v\<close> stored through the out-parameter.
\<close>

definition Lookup ::
  "('k, 'v) leaf_page \<Rightarrow> 'k \<Rightarrow> ('k \<Rightarrow> 'k \<Rightarrow> int) \<Rightarrow> 'v option option" where
  "Lookup p key comparator =
     (case KeyIndex p key comparator of
        None \<Rightarrow> None
      | Some target_index \<Rightarrow>
          if target_index = GetSize p then Some None
          else
            (case slot_get (array p) target_index of
               None \<Rightarrow> None
             | Some (k, v) \<Rightarrow> if comparator key k = 0 then Some (Some v) else Some None))"

text \<open>
  \<open>RemoveAndDeleteRecord\<close> is declared to return \<open>bool\<close> and returns \<open>GetSize()\<close>: the
  conversion makes the result \<open>true\<close> exactly when the size it returns is not zero.
\<close>

definition RemoveAndDeleteRecord ::
  "('k, 'v) leaf_page \<Rightarrow> 'k \<Rightarrow> ('k \<Rightarrow> 'k \<Rightarrow> int) \<Rightarrow> (bool \<times> ('k, 'v) leaf_page) option" where
  "RemoveAndDeleteRecord p key comparator =
     (case KeyIndex p key comparator of
        None \<Rightarrow> None
      | Some target_index \<Rightarrow>
          if target_index = GetSize p then Some (GetSize p \<noteq> 0, p)
          else
            (case KeyAt p target_index of
               None \<Rightarrow> None
             | Some k \<Rightarrow>
                 if comparator key k \<noteq> 0 then Some (GetSize p \<noteq> 0, p)
                 else
                   (case shift_left (array p) target_index (GetSize p - 1) of
                      None \<Rightarrow> None
                    | Some a1 \<Rightarrow>
                        Some (GetSize p - 1 \<noteq> 0, (IncreaseSize p (- 1))\<lparr>array := a1\<rparr>))))"

text \<open>The entries of a leaf: the first \<open>node_size\<close> slots.\<close>

definition leaf_entries :: "('k, 'v) leaf_page \<Rightarrow> ('k \<times> 'v) list" where
  "leaf_entries p = take (nat (node_size p)) (array p)"

definition leaf_keys :: "('k, 'v) leaf_page \<Rightarrow> 'k list" where
  "leaf_keys p = map fst (leaf_entries p)"

text \<open>
  A leaf whose size is within the slots of its page and whose keys are strictly
  increasing.
\<close>

definition leaf_sorted :: "('k::linorder, 'v) leaf_page \<Rightarrow> bool" where
  "leaf_sorted p =
     (0 \<le> node_size p \<and> node_size p \<le> int (length (array p)) \<and> sorted_wrt (<) (leaf_keys p))"

subsection \<open>Internal page\<close>

definition Internal_KeyAt :: "'k internal_page \<Rightarrow> int \<Rightarrow> 'k option" where
  "Internal_KeyAt p index = map_option fst (slot_get (internal_array p) index)"

definition ValueAt :: "'k internal_page \<Rightarrow> int \<Rightarrow> int option" where
  "ValueAt p index = map_option snd (slot_get (internal_array p) index)"

function Internal_Lookup_loop ::
  "'k internal_page \<Rightarrow> 'k \<Rightarrow> ('k \<Rightarrow> 'k \<Rightarrow> int) \<Rightarrow> int \<Rightarrow> int \<Rightarrow> int option" where
  "Internal_Lookup_loop p key comparator left right =
     (if left \<le> right then
        (case Internal_KeyAt p (left + (right - left) div 2) of
           None \<Rightarrow> None
         | Some k \<Rightarrow>
             if comparator k key > 0
             then Internal_Lookup_loop p key comparator left (left + (right - left) div 2 - 1)
             else Internal_Lookup_loop p key comparator (left + (right - left) div 2 + 1) right)
      else Some left)"
  by pat_completeness auto
termination
  by (relation "measure (\<lambda>(p, key, comparator, left, right). nat (right - left + 1))") auto

declare Internal_Lookup_loop.simps [simp del]

text \<open>
  \<open>Lookup\<close> of the internal page; a failing \<open>assert(target_index - 1 >= 0)\<close> aborts
  and returns nothing.
\<close>

definition Internal_Lookup :: "'k internal_page \<Rightarrow> 'k \<Rightarrow> ('k \<Rightarrow> 'k \<Rightarrow> int) \<Rightarrow> int option" where
  "Internal_Lookup p key comparator =
     (case Internal_Lookup_loop p key comparator 1 (GetSize p - 1) of
        None \<Rightarrow> None
      | Some target_index \<Rightarrow>
          if target_index - 1 \<ge> 0 then ValueAt p (target_index - 1) else None)"

text \<open>
  An internal node with at least one child, within the slots of its page, whose keys
  from index 1 on are strictly increasing.
\<close>

definition internal_keys :: "'k internal_page \<Rightarrow> 'k list" where
  "internal_keys p = map fst (take (nat (node_size p)) (internal_array p))"

definition internal_values :: "'k internal_page \<Rightarrow> int list" where
  "internal_values p = map snd (take (nat (node_size p)) (internal_array p))"

definition internal_sorted :: "('k::linorder) internal_page \<Rightarrow> bool" where
  "internal_sorted p =
     (1 \<le> node_size p \<and> node_size p \<le> int (length (internal_array p)) \<and>
      sorted_wrt (<) (drop 1 (internal_keys p)))"

section \<open>Buffer pool manager\<close>

text \<open>
  Modelled from the spec: \<open>storage/page/page.h\<close> is not among the sources. A frame of the
  pool has the fields the manager reads and writes (page id, pin count, dirty flag and
  the bytes of the page, here a list of numbers), and resetting a frame zeroes its memory,
  as the specification says.
\<close>

record page =
  data :: "nat list"
  page_id :: int
  pin_count :: int
  is_dirty :: bool

definition ResetMemory :: "page \<Rightarrow> page" where
  "ResetMemory pg = pg\<lparr>data := replicate (length (data pg)) 0\<rparr>"

text \<open>
  Source: \<open>buffer/buffer_pool_manager.cpp\<close>. The disk manager is an outside collaborator: what the pool does to it is
  kept as the list of \<open>WritePage\<close> calls, in order. A \<open>Page *\<close> always points into \<open>pages\<close>
  and is the index of the frame. The latch is left out of the sequential model.
\<close>

record buffer_pool_manager =
  pool_size :: nat
  pages :: "page list"
  replacer :: clock_replacer
  free_list :: "nat list"
  page_table :: "int \<rightharpoonup> nat"
  next_page_id :: int
  disk_writes :: "(int \<times> nat list) list"

text \<open>
  \<open>UpdatePage(page, new_page_id, new_frame_id)\<close>: write back when dirty, erase the old
  mapping, install the new one (\<open>emplace\<close> keeps an entry that already exists), zero the
  memory and set the page id.
\<close>

definition UpdatePage :: "buffer_pool_manager \<Rightarrow> nat \<Rightarrow> int \<Rightarrow> nat \<Rightarrow> buffer_pool_manager option" where
  "UpdatePage b frame new_page_id new_frame_id =
     (if length (pages b) \<le> frame then None
      else
        let pg = pages b ! frame;
            writes = (if is_dirty pg then disk_writes b @ [(page_id pg, data pg)] else disk_writes b);
            pg1 = (if is_dirty pg then pg\<lparr>is_dirty := False\<rparr> else pg);
            erased = (page_table b)(page_id pg1 := None);
            table = (if new_page_id \<noteq> INVALID_PAGE_ID
                     then (case erased new_page_id of
                             None \<Rightarrow> erased(new_page_id \<mapsto> new_frame_id)
                           | Some _ \<Rightarrow> erased)
                     else erased);
            pg2 = (ResetMemory pg1)\<lparr>page_id := new_page_id\<rparr>
        in Some (b\<lparr>disk_writes := writes, page_table := table, pages := (pages b)[frame := pg2]\<rparr>))"

definition UnpinPage :: "buffer_pool_manager \<Rightarrow> int \<Rightarrow> bool \<Rightarrow> (bool \<times> buffer_pool_manager) option" where
  "UnpinPage b pid dirty =
     (case page_table b pid of
        None \<Rightarrow> Some (False, b)
      | Some frame_id \<Rightarrow>
          if length (pages b) \<le> frame_id then None
          else
            let pg = pages b ! frame_id in
            if pin_count pg = 0 then Some (False, b)
            else
              let pg1 = pg\<lparr>pin_count := pin_count pg - 1\<rparr> in
              (case (if pin_count pg1 = 0 then Unpin (replacer b) frame_id else Some (replacer b)) of
                 None \<Rightarrow> None
               | Some r1 \<Rightarrow>
                   let pg2 = (if dirty then pg1\<lparr>is_dirty := True\<rparr> else pg1)
                   in Some (True, b\<lparr>pages := (pages b)[frame_id := pg2], replacer := r1\<rparr>)))"

definition DeletePage :: "buffer_pool_manager \<Rightarrow> int \<Rightarrow> (bool \<times> buffer_pool_manager) option" where
  "DeletePage b pid =
     (case page_table b pid of
        None \<Rightarrow> Some (True, b)
      | Some frame_id \<Rightarrow>
          if length (pages b) \<le> frame_id then None
          else if pin_count (pages b ! frame_id) > 0 then Some (False, b)
          else
            (case UpdatePage b frame_id INVALID_PAGE_ID frame_id of
               None \<Rightarrow> None
             | Some b1 \<Rightarrow> Some (True, b1\<lparr>free_list := free_list b1 @ [frame_id]\<rparr>)))"

text \<open>
  The mapping of \<open>pid\<close> is consistent: it leads to a frame of the pool, and that frame
  holds the page \<open>pid\<close>.
\<close>

definition mapped_to :: "buffer_pool_manager \<Rightarrow> int \<Rightarrow> nat \<Rightarrow> bool" where
  "mapped_to b pid f =
     (page_table b pid = Some f \<and> f < length (pages b) \<and> page_id (pages b ! f) = pid)"

section \<open>Page guards\<close>

text \<open>
  Source: \<open>storage/page/page_guard.cpp\<close>. A basic guard holds a pointer to the pool, a
  pointer to a frame and a dirty flag. A null pointer is \<open>None\<close>; the pointer to the one
  pool of the model is \<open>Some ()\<close>, a pointer to a frame is the frame's index. The fields
  \<open>bpm_\<close>, \<open>page_\<close> and \<open>is_dirty_\<close> are \<open>guard_bpm\<close>, \<open>guard_page\<close> and \<open>guard_is_dirty\<close>.
\<close>

record basic_page_guard =
  guard_bpm :: "unit option"
  guard_page :: "nat option"
  guard_is_dirty :: bool

text \<open>
  Modelled from the spec: \<open>storage/page/page_guard.h\<close> is not among the sources. A guard
  that owns nothing has both pointers null and is not dirty; a guard under construction
  starts so.
\<close>

definition empty_guard :: basic_page_guard where
  "empty_guard = \<lparr>guard_bpm = None, guard_page = None, guard_is_dirty = False\<rparr>"

text \<open>
  \<open>Drop\<close> returns the guard and the pool after the call, and the \<open>UnpinPage\<close> calls it
  made (page id and dirty flag).
\<close>

definition Drop ::
  "basic_page_guard \<Rightarrow> buffer_pool_manager \<Rightarrow>
   (basic_page_guard \<times> buffer_pool_manager \<times> (int \<times> bool) list) option" where
  "Drop g b =
     (if guard_bpm g = None \<or> guard_page g = None then Some (g, b, [])
      else
        (case guard_page g of
           None \<Rightarrow> Some (g, b, [])
         | Some f \<Rightarrow>
             if length (pages b) \<le> f then None
             else
               (case UnpinPage b (page_id (pages b ! f)) (guard_is_dirty g) of
                  None \<Rightarrow> None
                | Some (_, b') \<Rightarrow>
                    Some (g\<lparr>guard_bpm := None, guard_page := None\<rparr>, b',
                          [(page_id (pages b ! f), guard_is_dirty g)]))))"

text \<open>
  The move constructor \<open>BasicPageGuard(BasicPageGuard &&that)\<close>. The new guard starts as
  the guard that owns nothing. The result is the new guard, the guard moved from, the
  pool, and the \<open>UnpinPage\<close> calls made. The source sets \<open>that.bpm_\<close> to null twice and
  leaves \<open>that.page_\<close> as it is.
\<close>

definition BasicPageGuard_move ::
  "basic_page_guard \<Rightarrow> buffer_pool_manager \<Rightarrow>
   (basic_page_guard \<times> basic_page_guard \<times> buffer_pool_manager \<times> (int \<times> bool) list) option" where
  "BasicPageGuard_move that b =
     (case Drop empty_guard b of
        None \<Rightarrow> None
      | Some (this, b', calls) \<Rightarrow>
          Some (this\<lparr>guard_bpm := guard_bpm that, guard_page := guard_page that,
                      guard_is_dirty := guard_is_dirty that\<rparr>,
                that\<lparr>guard_bpm := None, guard_is_dirty := False\<rparr>, b', calls))"

text \<open>
  The move assignment \<open>operator=(BasicPageGuard &&that)\<close>, for two distinct guards:
  the result is the guard assigned to, the guard moved from, the pool and the calls made.
\<close>

definition BasicPageGuard_assign ::
  "basic_page_guard \<Rightarrow> basic_page_guard \<Rightarrow> buffer_pool_manager \<Rightarrow>
   (basic_page_guard \<times> basic_page_guard \<times> buffer_pool_manager \<times> (int \<times> bool) list) option" where
  "BasicPageGuard_assign this that b =
     (case Drop this b of
        None \<Rightarrow> None
      | Some (this', b', calls) \<Rightarrow>
          Some (this'\<lparr>guard_bpm := guard_bpm that, guard_page := guard_page that,
                       guard_is_dirty := guard_is_dirty that\<rparr>,
                that, b', calls))"

text \<open>
  A write guard wraps a basic guard (\<open>guard_\<close>, here \<open>guard\<close>); its move assignment drops
  the wrapped guard and copies the three fields.
\<close>

record write_page_guard =
  guard :: basic_page_guard

definition WritePageGuard_assign ::
  "write_page_guard \<Rightarrow> write_page_guard \<Rightarrow> buffer_pool_manager \<Rightarrow>
   (write_page_guard \<times> write_page_guard \<times> buffer_pool_manager \<times> (int \<times> bool) list) option" where
  "WritePageGuard_assign this that b =
     (case Drop (guard this) b of
        None \<Rightarrow> None
      | Some (g', b', calls) \<Rightarrow>
          Some (this\<lparr>guard := g'\<lparr>guard_bpm := guard_bpm (guard that),
                                   guard_page := guard_page (guard that),
                                   guard_is_dirty := guard_is_dirty (guard that)\<rparr>\<rparr>,
                that, b', calls))"

text \<open>The destructor \<open>~BasicPageGuard\<close> is \<open>Drop\<close>.\<close>

section \<open>Example states\<close>

definition example_leaf :: "(int, int) leaf_page" where
  "example_leaf =
     \<lparr>page_type = LEAF_PAGE, node_size = 3, max_size = 4, parent_page_id = - 1, node_page_id = 2,
      leaf_next_page_id = - 1, array = [(10, 100), (20, 200), (30, 300), (0, 0)]\<rparr>"

definition single_leaf :: "(int, int) leaf_page" where
  "single_leaf =
     \<lparr>page_type = LEAF_PAGE, node_size = 1, max_size = 4, parent_page_id = - 1, node_page_id = 2,
      leaf_next_page_id = - 1, array = [(5, 50), (0, 0), (0, 0), (0, 0)]\<rparr>"

definition fresh_leaf :: "(int, int) leaf_page" where
  "fresh_leaf =
     \<lparr>page_type = LEAF_PAGE, node_size = 0, max_size = 4, parent_page_id = - 1, node_page_id = 2,
      leaf_next_page_id = - 1, array = [(0, 0), (0, 0), (0, 0), (0, 0)]\<rparr>"

definition example_internal :: "int internal_page" where
  "example_internal =
     \<lparr>page_type = INTERNAL_PAGE, node_size = 3, max_size = 4, parent_page_id = - 1,
      node_page_id = 1, internal_array = [(0, 11), (20, 12), (30, 13), (0, 0)]\<rparr>"

definition owning_guard :: basic_page_guard where
  "owning_guard = \<lparr>guard_bpm = Some (), guard_page = Some 0, guard_is_dirty = False\<rparr>"

definition example_pool :: buffer_pool_manager where
  "example_pool =
     \<lparr>pool_size = 2,
      pages = [\<lparr>data = [1, 2], page_id = 7, pin_count = 1, is_dirty = False\<rparr>,
               \<lparr>data = [3, 4], page_id = 8, pin_count = 0, is_dirty = True\<rparr>],
      replacer = \<lparr>num_pages = 2, pointer = 0, ref_flag = [False, True]\<rparr>,
      free_list = [],
      page_table = [7 \<mapsto> 0, 8 \<mapsto> 1],
      next_page_id = 9,
      disk_writes = []\<rparr>"

section \<open>Theorems\<close>

subsection \<open>Properties of the replacer\<close>

lemma replacer_ok_ClockReplacer: "replacer_ok (ClockReplacer n)"
  by (cases n) (simp_all add: replacer_ok_def ClockReplacer_def)

lemma replacer_ok_Unpin: "replacer_ok r \<Longrightarrow> Unpin r f = Some r' \<Longrightarrow> replacer_ok r'"
  by (auto simp: replacer_ok_def Unpin_def split: if_splits)

lemma replacer_ok_Pin: "replacer_ok r \<Longrightarrow> Pin r f = Some r' \<Longrightarrow> replacer_ok r'"
  by (auto simp: replacer_ok_def Pin_def NextSlot_def split: if_splits)

lemma Victim_loop_ok:
  "Victim_loop r k c = Some (v, r') \<Longrightarrow> length (ref_flag r) = num_pages r \<Longrightarrow>
   pointer r < num_pages r \<or> num_pages r = 0 \<Longrightarrow> replacer_ok r'"
proof (induction k arbitrary: c)
  case 0
  then show ?case by (simp add: replacer_ok_def)
next
  case (Suc k)
  then show ?case
    by (auto simp: replacer_ok_def NextSlot_def split: if_splits)
qed

lemma replacer_ok_Victim: "replacer_ok r \<Longrightarrow> Victim r = Some (v, r') \<Longrightarrow> replacer_ok r'"
  unfolding Victim_def by (rule Victim_loop_ok) (auto simp: replacer_ok_def)

lemma replacer_ok_replay: "replacer_ok r \<Longrightarrow> replay r cs = Some r' \<Longrightarrow> replacer_ok r'"
proof (induction r cs rule: replay.induct)
  case (1 r)
  then show ?case by simp
next
  case (2 r f cs)
  then show ?case by (auto split: option.splits dest: replacer_ok_Unpin)
next
  case (3 r f cs)
  then show ?case by (auto split: option.splits dest: replacer_ok_Pin)
next
  case (4 r cs)
  then show ?case by (auto split: option.splits dest: replacer_ok_Victim)
qed

text \<open>The scan finds nothing when no flag is set, and leaves the replacer as it was.\<close>

lemma Victim_loop_none:
  "length (ref_flag r) = num_pages r \<Longrightarrow> c < num_pages r \<Longrightarrow>
   \<forall>i < num_pages r. \<not> ref_flag r ! i \<Longrightarrow> Victim_loop r k c = Some (None, r)"
proof (induction k arbitrary: c)
  case 0
  then show ?case by simp
next
  case (Suc k)
  have "NextSlot r c < num_pages r"
    using Suc.prems(2) by (simp add: NextSlot_def)
  with Suc show ?case by simp
qed

text \<open>
  The scan returns the first slot with a set flag, counted cyclically from where it
  starts, when that slot is within the \<open>m\<close> iterations it may take.
\<close>

lemma Victim_loop_first:
  "length (ref_flag r) = num_pages r \<Longrightarrow> c < num_pages r \<Longrightarrow> k < m \<Longrightarrow>
   ref_flag r ! ((c + k) mod num_pages r) \<Longrightarrow>
   \<forall>j < k. \<not> ref_flag r ! ((c + j) mod num_pages r) \<Longrightarrow>
   Victim_loop r m c =
     Some (Some ((c + k) mod num_pages r),
           r\<lparr>ref_flag := (ref_flag r)[(c + k) mod num_pages r := False],
             pointer := NextSlot r ((c + k) mod num_pages r)\<rparr>)"
proof (induction m arbitrary: c k)
  case 0
  then show ?case by simp
next
  case (Suc m)
  show ?case
  proof (cases k)
    case 0
    with Suc.prems show ?thesis by simp
  next
    case (Suc k')
    have c0: "\<not> ref_flag r ! c"
      using Suc.prems(5)[rule_format, of 0] Suc Suc.prems(2) by simp
    have nx: "NextSlot r c < num_pages r"
      using Suc.prems(2) by (simp add: NextSlot_def)
    have shift: "(NextSlot r c + j) mod num_pages r = (c + Suc j) mod num_pages r" for j
      by (simp add: NextSlot_def mod_add_left_eq)
    have hit: "ref_flag r ! ((NextSlot r c + k') mod num_pages r)"
      using Suc.prems(4) Suc unfolding shift by simp
    have miss: "\<forall>j < k'. \<not> ref_flag r ! ((NextSlot r c + j) mod num_pages r)"
      unfolding shift using Suc.prems(5) Suc by auto
    have "Victim_loop r m (NextSlot r c) =
      Some (Some ((NextSlot r c + k') mod num_pages r),
           r\<lparr>ref_flag := (ref_flag r)[(NextSlot r c + k') mod num_pages r := False],
             pointer := NextSlot r ((NextSlot r c + k') mod num_pages r)\<rparr>)"
      using Suc.IH[OF Suc.prems(1) nx _ hit miss] Suc.prems(3) Suc by simp
    then have "Victim_loop r m (NextSlot r c) =
      Some (Some ((c + k) mod num_pages r),
           r\<lparr>ref_flag := (ref_flag r)[(c + k) mod num_pages r := False],
             pointer := NextSlot r ((c + k) mod num_pages r)\<rparr>)"
      unfolding shift Suc by simp
    then show ?thesis
      using c0 Suc.prems(1,2) by simp
  qed
qed

subsection \<open>Pin\<close>

text \<open>
  Claim C10. For a replacer as the constructor and the operations leave it and a frame id
  \<open>f\<close> below \<open>num_pages\<close>, \<open>Pin f\<close> clears the reference flag of \<open>f\<close>, moves the pointer to
  the slot after \<open>f\<close> (cyclically) and leaves the flag of every other slot as it was; the
  next \<open>Victim\<close> therefore starts its scan at the slot after \<open>f\<close>.
\<close>

theorem Pin_moves_pointer:
  assumes "replacer_ok r" and "frame_id < num_pages r"
  shows "Pin r frame_id =
           Some (r\<lparr>pointer := (frame_id + 1) mod num_pages r,
                   ref_flag := (ref_flag r)[frame_id := False]\<rparr>) \<and>
         (\<forall>r'. Pin r frame_id = Some r' \<longrightarrow>
            \<not> ref_flag r' ! frame_id \<and>
            (\<forall>i. i \<noteq> frame_id \<longrightarrow> ref_flag r' ! i = ref_flag r ! i) \<and>
            Victim r' = Victim_loop r' (num_pages r) ((frame_id + 1) mod num_pages r))"
  using assms by (auto simp: Pin_def replacer_ok_def NextSlot_def Victim_def)

text \<open>
  An instance: pinning frame 1 of three set flags moves the pointer from 0 to 2, and the
  next \<open>Victim\<close> returns frame 2; with the pointer left at 0 it would have returned
  frame 0.
\<close>

theorem Pin_moves_pointer_witness:
  "Pin \<lparr>num_pages = 3, pointer = 0, ref_flag = [True, True, True]\<rparr> 1 =
     Some \<lparr>num_pages = 3, pointer = 2, ref_flag = [True, False, True]\<rparr> \<and>
   Victim \<lparr>num_pages = 3, pointer = 2, ref_flag = [True, False, True]\<rparr> =
     Some (Some 2, \<lparr>num_pages = 3, pointer = 0, ref_flag = [True, False, False]\<rparr>) \<and>
   Victim \<lparr>num_pages = 3, pointer = 0, ref_flag = [True, False, True]\<rparr> =
     Some (Some 0, \<lparr>num_pages = 3, pointer = 1, ref_flag = [False, False, True]\<rparr>)"
proof -
  have ok: "replacer_ok \<lparr>num_pages = 3, pointer = 0, ref_flag = [True, True, True]\<rparr>"
    by (simp add: replacer_ok_def)
  have "Pin \<lparr>num_pages = 3, pointer = 0, ref_flag = [True, True, True]\<rparr> 1 =
     Some \<lparr>num_pages = 3, pointer = 2, ref_flag = [True, False, True]\<rparr>"
    using Pin_moves_pointer[OF ok, of 1, THEN conjunct1] by simp
  moreover have "Victim \<lparr>num_pages = 3, pointer = 2, ref_flag = [True, False, True]\<rparr> =
     Some (Some 2, \<lparr>num_pages = 3, pointer = 0, ref_flag = [True, False, False]\<rparr>)"
    by code_simp
  moreover have "Victim \<lparr>num_pages = 3, pointer = 0, ref_flag = [True, False, True]\<rparr> =
     Some (Some 0, \<lparr>num_pages = 3, pointer = 1, ref_flag = [False, False, True]\<rparr>)"
    by code_simp
  ultimately show ?thesis by simp
qed

subsection \<open>Victim\<close>

text \<open>
  Claim C1, as the source has it. \<open>Victim\<close> examines at most \<open>num_pages\<close> slots, starting at
  the pointer. A slot whose flag is clear is passed over unchanged. The first slot whose
  flag is set is returned: its flag is cleared and the pointer is set to the slot after
  it, nothing else changes. When no flag is set, the result is \<open>None\<close> and the replacer is
  unchanged.
\<close>

theorem Victim_first_set_flag:
  assumes "replacer_ok r"
  shows "((\<forall>i < num_pages r. \<not> ref_flag r ! i) \<longrightarrow> Victim r = Some (None, r)) \<and>
         (\<forall>k < num_pages r.
            ref_flag r ! ((pointer r + k) mod num_pages r) \<and>
            (\<forall>j < k. \<not> ref_flag r ! ((pointer r + j) mod num_pages r)) \<longrightarrow>
            Victim r =
              Some (Some ((pointer r + k) mod num_pages r),
                    r\<lparr>ref_flag := (ref_flag r)[(pointer r + k) mod num_pages r := False],
                      pointer := ((pointer r + k) mod num_pages r + 1) mod num_pages r\<rparr>))"
proof (intro conjI impI allI)
  assume none: "\<forall>i < num_pages r. \<not> ref_flag r ! i"
  show "Victim r = Some (None, r)"
  proof (cases "num_pages r = 0")
    case True
    then show ?thesis by (simp add: Victim_def)
  next
    case False
    with assms have "length (ref_flag r) = num_pages r" "pointer r < num_pages r"
      by (auto simp: replacer_ok_def)
    then show ?thesis
      unfolding Victim_def using none by (rule Victim_loop_none)
  qed
next
  fix k
  assume k: "k < num_pages r"
    and hit: "ref_flag r ! ((pointer r + k) mod num_pages r) \<and>
            (\<forall>j < k. \<not> ref_flag r ! ((pointer r + j) mod num_pages r))"
  from k assms have len: "length (ref_flag r) = num_pages r" and p: "pointer r < num_pages r"
    by (auto simp: replacer_ok_def)
  show "Victim r =
              Some (Some ((pointer r + k) mod num_pages r),
                    r\<lparr>ref_flag := (ref_flag r)[(pointer r + k) mod num_pages r := False],
                      pointer := ((pointer r + k) mod num_pages r + 1) mod num_pages r\<rparr>)"
    unfolding Victim_def
    using Victim_loop_first[OF len p k] hit by (simp add: NextSlot_def)
qed

theorem Victim_first_set_flag_witness:
  "Victim \<lparr>num_pages = 3, pointer = 0, ref_flag = [False, True, True]\<rparr> =
     Some (Some 1, \<lparr>num_pages = 3, pointer = 2, ref_flag = [False, False, True]\<rparr>) \<and>
   Victim (ClockReplacer 3) = Some (None, ClockReplacer 3)"
proof -
  let ?r = "\<lparr>num_pages = 3, pointer = 0, ref_flag = [False, True, True]\<rparr>"
  have ok: "replacer_ok ?r"
    by (simp add: replacer_ok_def)
  have "Victim ?r = Some (Some 1, \<lparr>num_pages = 3, pointer = 2, ref_flag = [False, False, True]\<rparr>)"
    using Victim_first_set_flag[OF ok, THEN conjunct2, rule_format, of 1] by simp
  moreover have "Victim (ClockReplacer 3) = Some (None, ClockReplacer 3)"
    using Victim_first_set_flag[OF replacer_ok_ClockReplacer, of 3, THEN conjunct1]
    by (simp add: ClockReplacer_def)
  ultimately show ?thesis by simp
qed

text \<open>
  Claim C1, as stated, fails: the source is not the second-chance policy. After
  \<open>Unpin 0\<close>, \<open>Unpin 2\<close>, \<open>Victim\<close> and \<open>Unpin 1\<close> on a replacer of three frames, the
  source's \<open>Victim\<close> returns frame 1, the slot at the pointer, whose flag is set; the
  second-chance policy of the specification clears that bit, passes on and returns
  frame 2, a candidate whose bit is clear.
\<close>

theorem Victim_not_second_chance:
  "replay (ClockReplacer 3) [CallUnpin 0, CallUnpin 2, CallVictim, CallUnpin 1] =
     Some \<lparr>num_pages = 3, pointer = 1, ref_flag = [False, True, True]\<rparr> \<and>
   Victim \<lparr>num_pages = 3, pointer = 1, ref_flag = [False, True, True]\<rparr> =
     Some (Some 1, \<lparr>num_pages = 3, pointer = 2, ref_flag = [False, False, True]\<rparr>) \<and>
   fst (sc_Victim (sc_replay (sc_new 3) [CallUnpin 0, CallUnpin 2, CallVictim, CallUnpin 1])) =
     Some 2"
  by code_simp

subsection \<open>Leaf page: KeyIndex\<close>

lemma three_way_GenericComparator: "three_way (GenericComparator :: 'k::linorder \<Rightarrow> 'k \<Rightarrow> int)"
  by (auto simp: three_way_def GenericComparator_def)

lemma length_leaf_keys:
  "0 \<le> node_size p \<Longrightarrow> node_size p \<le> int (length (array p)) \<Longrightarrow>
   length (leaf_keys p) = nat (node_size p)"
  by (simp add: leaf_keys_def leaf_entries_def)

lemma KeyAt_leaf_keys:
  "0 \<le> j \<Longrightarrow> j < node_size p \<Longrightarrow> node_size p \<le> int (length (array p)) \<Longrightarrow>
   KeyAt p j = Some (leaf_keys p ! nat j)"
  by (simp add: KeyAt_def slot_get_def leaf_keys_def leaf_entries_def)

lemma leaf_sorted_mono:
  assumes "leaf_sorted p" and "0 \<le> i" and "i \<le> j" and "j < node_size p"
  shows "leaf_keys p ! nat i \<le> leaf_keys p ! nat j"
proof (cases "i = j")
  case True
  then show ?thesis by simp
next
  case False
  have len: "length (leaf_keys p) = nat (node_size p)"
    using assms(1) by (simp add: leaf_sorted_def length_leaf_keys)
  have "nat i < nat j" "nat j < length (leaf_keys p)"
    using False assms(2-4) len by auto
  moreover have "sorted_wrt (<) (leaf_keys p)"
    using assms(1) by (simp add: leaf_sorted_def)
  ultimately have "leaf_keys p ! nat i < leaf_keys p ! nat j"
    by (rule sorted_wrt_nth_less[rotated])
  then show ?thesis by simp
qed

lemma three_way_ge: "three_way comparator \<Longrightarrow> (comparator a b \<ge> 0) = (b \<le> a)"
  unfolding three_way_def by (metis not_le)

lemma KeyIndex_loop_least:
  "three_way comparator \<Longrightarrow> leaf_sorted p \<Longrightarrow>
     0 \<le> left \<Longrightarrow> right < node_size p \<Longrightarrow> left \<le> right + 1 \<Longrightarrow>
     (\<forall>j. 0 \<le> j \<and> j < left \<longrightarrow> leaf_keys p ! nat j < key) \<Longrightarrow>
     (\<forall>j. right < j \<and> j < node_size p \<longrightarrow> key \<le> leaf_keys p ! nat j) \<Longrightarrow>
     \<exists>i. KeyIndex_loop p key comparator left right = Some i \<and> 0 \<le> i \<and> i \<le> node_size p \<and>
         (\<forall>j. 0 \<le> j \<and> j < i \<longrightarrow> leaf_keys p ! nat j < key) \<and>
         (\<forall>j. i \<le> j \<and> j < node_size p \<longrightarrow> key \<le> leaf_keys p ! nat j)"
proof (induction p key comparator left right rule: KeyIndex_loop.induct)
  case (1 p key comparator left right)
  have tw: "three_way comparator" and srt: "leaf_sorted p"
    using "1.prems" by simp_all
  show ?case
  proof (cases "left \<le> right")
    case False
    with "1.prems" have "left = right + 1" by simp
    with False "1.prems" show ?thesis
      by (subst KeyIndex_loop.simps) auto
  next
    case True
    define mid where "mid = left + (right - left) div 2"
    have mid: "left \<le> mid" "mid \<le> right"
      using True by (auto simp: mid_def)
    have bound: "node_size p \<le> int (length (array p))"
      using srt by (simp add: leaf_sorted_def)
    have at: "KeyAt p mid = Some (leaf_keys p ! nat mid)"
      using mid "1.prems" bound by (intro KeyAt_leaf_keys) auto
    show ?thesis
    proof (cases "comparator (leaf_keys p ! nat mid) key \<ge> 0")
      case ge: True
      then have kle: "key \<le> leaf_keys p ! nat mid"
        using tw by (simp add: three_way_ge)
      have upper: "\<forall>j. mid - 1 < j \<and> j < node_size p \<longrightarrow> key \<le> leaf_keys p ! nat j"
      proof (intro allI impI)
        fix j assume j: "mid - 1 < j \<and> j < node_size p"
        have "leaf_keys p ! nat mid \<le> leaf_keys p ! nat j"
          using srt mid "1.prems" j by (intro leaf_sorted_mono) auto
        with kle show "key \<le> leaf_keys p ! nat j" by simp
      qed
      have "\<exists>i. KeyIndex_loop p key comparator left (mid - 1) = Some i \<and> 0 \<le> i \<and> i \<le> node_size p \<and>
         (\<forall>j. 0 \<le> j \<and> j < i \<longrightarrow> leaf_keys p ! nat j < key) \<and>
         (\<forall>j. i \<le> j \<and> j < node_size p \<longrightarrow> key \<le> leaf_keys p ! nat j)"
        using "1.IH"(1)[OF True at[unfolded mid_def] ge[unfolded mid_def] tw srt] mid "1.prems" upper
        unfolding mid_def[symmetric] by auto
      moreover have "KeyIndex_loop p key comparator left right =
                     KeyIndex_loop p key comparator left (mid - 1)"
        using True at ge by (subst KeyIndex_loop.simps) (simp add: mid_def)
      ultimately show ?thesis by simp
    next
      case lt: False
      then have klt: "leaf_keys p ! nat mid < key"
        using tw by (simp add: three_way_ge)
      have lower: "\<forall>j. 0 \<le> j \<and> j < mid + 1 \<longrightarrow> leaf_keys p ! nat j < key"
      proof (intro allI impI)
        fix j assume j: "0 \<le> j \<and> j < mid + 1"
        have "leaf_keys p ! nat j \<le> leaf_keys p ! nat mid"
          using srt mid "1.prems" j by (intro leaf_sorted_mono) auto
        with klt show "leaf_keys p ! nat j < key" by simp
      qed
      have "\<exists>i. KeyIndex_loop p key comparator (mid + 1) right = Some i \<and> 0 \<le> i \<and> i \<le> node_size p \<and>
         (\<forall>j. 0 \<le> j \<and> j < i \<longrightarrow> leaf_keys p ! nat j < key) \<and>
         (\<forall>j. i \<le> j \<and> j < node_size p \<longrightarrow> key \<le> leaf_keys p ! nat j)"
        using "1.IH"(2)[OF True at[unfolded mid_def] lt[unfolded mid_def] tw srt] mid "1.prems" lower
        unfolding mid_def[symmetric] by auto
      moreover have "KeyIndex_loop p key comparator left right =
                     KeyIndex_loop p key comparator (mid + 1) right"
        using True at lt by (subst KeyIndex_loop.simps) (simp add: mid_def)
      ultimately show ?thesis by simp
    qed
  qed
qed

text \<open>The index the search returns, for every key.\<close>

lemma KeyIndex_smallest:
  assumes "three_way comparator" and "leaf_sorted p"
  shows "\<exists>i. KeyIndex p key comparator = Some i \<and> 0 \<le> i \<and> i \<le> node_size p \<and>
           (\<forall>j < nat i. leaf_keys p ! j < key) \<and>
           (i = node_size p \<or> key \<le> leaf_keys p ! nat i)"
proof -
  have "(0::int) \<le> 0" "node_size p - 1 < node_size p" "0 \<le> node_size p - 1 + 1"
    "\<forall>j. 0 \<le> j \<and> j < 0 \<longrightarrow> leaf_keys p ! nat j < key"
    "\<forall>j. node_size p - 1 < j \<and> j < node_size p \<longrightarrow> key \<le> leaf_keys p ! nat j"
    using assms(2) by (auto simp: leaf_sorted_def)
  from KeyIndex_loop_least[OF assms this]
  obtain i where i: "KeyIndex_loop p key comparator 0 (node_size p - 1) = Some i"
      "0 \<le> i" "i \<le> node_size p"
      "\<forall>j. 0 \<le> j \<and> j < i \<longrightarrow> leaf_keys p ! nat j < key"
      "\<forall>j. i \<le> j \<and> j < node_size p \<longrightarrow> key \<le> leaf_keys p ! nat j"
    by blast
  have "\<forall>j < nat i. leaf_keys p ! j < key"
  proof (intro allI impI)
    fix j assume "j < nat i"
    then show "leaf_keys p ! j < key"
      using i(4)[rule_format, of "int j"] by simp
  qed
  moreover have "i = node_size p \<or> key \<le> leaf_keys p ! nat i"
    using i(3) i(5)[rule_format, of i] by linarith
  ultimately show ?thesis
    using i(1-3) by (simp add: KeyIndex_def GetSize_def)
qed

text \<open>
  Claim C8. For a leaf whose keys are strictly increasing and a comparator that agrees
  with the order of the keys, \<open>KeyIndex\<close> returns an index \<open>i\<close> between 0 and the size
  such that every key before \<open>i\<close> is less than \<open>key\<close> and the key at \<open>i\<close>, when \<open>i\<close> is
  below the size, is at least \<open>key\<close>: the smallest index whose key is at least \<open>key\<close>,
  and the size when every stored key is less.
\<close>

theorem KeyIndex_least:
  assumes "three_way comparator" and "leaf_sorted p"
  shows "\<exists>i. KeyIndex p key comparator = Some i \<and> 0 \<le> i \<and> i \<le> node_size p \<and>
           (\<forall>j < nat i. leaf_keys p ! j < key) \<and>
           (i = node_size p \<or> key \<le> leaf_keys p ! nat i)"
  using assms by (rule KeyIndex_smallest)

theorem KeyIndex_least_witness:
  "three_way (GenericComparator :: int \<Rightarrow> int \<Rightarrow> int) \<and> leaf_sorted example_leaf \<and>
   (\<exists>i. KeyIndex example_leaf 25 GenericComparator = Some i \<and> 0 \<le> i \<and>
        i \<le> node_size example_leaf \<and>
        (\<forall>j < nat i. leaf_keys example_leaf ! j < 25) \<and>
        (i = node_size example_leaf \<or> 25 \<le> leaf_keys example_leaf ! nat i)) \<and>
   KeyIndex example_leaf 25 GenericComparator = Some 2 \<and>
   KeyIndex example_leaf 20 GenericComparator = Some 1 \<and>
   KeyIndex example_leaf 40 GenericComparator = Some 3"
proof -
  have srt: "leaf_sorted example_leaf"
    by code_simp
  have "\<exists>i. KeyIndex example_leaf 25 GenericComparator = Some i \<and> 0 \<le> i \<and>
        i \<le> node_size example_leaf \<and>
        (\<forall>j < nat i. leaf_keys example_leaf ! j < 25) \<and>
        (i = node_size example_leaf \<or> 25 \<le> leaf_keys example_leaf ! nat i)"
    using KeyIndex_least[OF three_way_GenericComparator srt, of 25] .
  moreover have "KeyIndex example_leaf 25 GenericComparator = Some 2"
    "KeyIndex example_leaf 20 GenericComparator = Some 1"
    "KeyIndex example_leaf 40 GenericComparator = Some 3"
    by code_simp+
  ultimately show ?thesis
    using three_way_GenericComparator srt by blast
qed

subsection \<open>Internal page: Lookup\<close>

lemma three_way_gt: "three_way comparator \<Longrightarrow> (comparator a b > 0) = (b < a)"
  unfolding three_way_def by (metis not_less_iff_gr_or_eq)

lemma length_internal_keys:
  "0 \<le> node_size p \<Longrightarrow> node_size p \<le> int (length (internal_array p)) \<Longrightarrow>
   length (internal_keys p) = nat (node_size p)"
  by (simp add: internal_keys_def)

lemma Internal_KeyAt_keys:
  "0 \<le> j \<Longrightarrow> j < node_size p \<Longrightarrow> node_size p \<le> int (length (internal_array p)) \<Longrightarrow>
   Internal_KeyAt p j = Some (internal_keys p ! nat j)"
  by (simp add: Internal_KeyAt_def slot_get_def internal_keys_def)

lemma ValueAt_values:
  "0 \<le> j \<Longrightarrow> j < node_size p \<Longrightarrow> node_size p \<le> int (length (internal_array p)) \<Longrightarrow>
   ValueAt p j = Some (internal_values p ! nat j)"
  by (simp add: ValueAt_def slot_get_def internal_values_def)

lemma internal_sorted_mono:
  assumes "internal_sorted p" and "1 \<le> i" and "i \<le> j" and "j < node_size p"
  shows "internal_keys p ! nat i \<le> internal_keys p ! nat j"
proof (cases "i = j")
  case True
  then show ?thesis by simp
next
  case False
  have len: "length (internal_keys p) = nat (node_size p)"
    using assms(1) by (simp add: internal_sorted_def length_internal_keys)
  have "nat i - 1 < nat j - 1" "nat j - 1 < length (drop 1 (internal_keys p))"
    using False assms(2-4) len by auto
  moreover have "sorted_wrt (<) (drop 1 (internal_keys p))"
    using assms(1) by (simp add: internal_sorted_def)
  ultimately have "drop 1 (internal_keys p) ! (nat i - 1) < drop 1 (internal_keys p) ! (nat j - 1)"
    by (rule sorted_wrt_nth_less[rotated])
  moreover have "drop 1 (internal_keys p) ! (nat i - 1) = internal_keys p ! nat i"
    "drop 1 (internal_keys p) ! (nat j - 1) = internal_keys p ! nat j"
    using assms(2-4) len by auto
  ultimately show ?thesis by simp
qed

lemma Internal_Lookup_loop_least:
  "three_way comparator \<Longrightarrow> internal_sorted p \<Longrightarrow>
     1 \<le> left \<Longrightarrow> right < node_size p \<Longrightarrow> left \<le> right + 1 \<Longrightarrow>
     (\<forall>j. 1 \<le> j \<and> j < left \<longrightarrow> internal_keys p ! nat j \<le> key) \<Longrightarrow>
     (\<forall>j. right < j \<and> j < node_size p \<longrightarrow> key < internal_keys p ! nat j) \<Longrightarrow>
     \<exists>i. Internal_Lookup_loop p key comparator left right = Some i \<and> 1 \<le> i \<and> i \<le> node_size p \<and>
         (\<forall>j. 1 \<le> j \<and> j < i \<longrightarrow> internal_keys p ! nat j \<le> key) \<and>
         (\<forall>j. i \<le> j \<and> j < node_size p \<longrightarrow> key < internal_keys p ! nat j)"
proof (induction p key comparator left right rule: Internal_Lookup_loop.induct)
  case (1 p key comparator left right)
  have tw: "three_way comparator" and srt: "internal_sorted p"
    using "1.prems" by simp_all
  show ?case
  proof (cases "left \<le> right")
    case False
    with "1.prems" have "left = right + 1" by simp
    with False "1.prems" show ?thesis
      by (subst Internal_Lookup_loop.simps) auto
  next
    case True
    define mid where "mid = left + (right - left) div 2"
    have mid: "left \<le> mid" "mid \<le> right"
      using True by (auto simp: mid_def)
    have bound: "node_size p \<le> int (length (internal_array p))"
      using srt by (simp add: internal_sorted_def)
    have at: "Internal_KeyAt p mid = Some (internal_keys p ! nat mid)"
      using mid "1.prems" bound by (intro Internal_KeyAt_keys) auto
    show ?thesis
    proof (cases "comparator (internal_keys p ! nat mid) key > 0")
      case gt: True
      then have klt: "key < internal_keys p ! nat mid"
        using tw by (simp add: three_way_gt)
      have upper: "\<forall>j. mid - 1 < j \<and> j < node_size p \<longrightarrow> key < internal_keys p ! nat j"
      proof (intro allI impI)
        fix j assume j: "mid - 1 < j \<and> j < node_size p"
        have "internal_keys p ! nat mid \<le> internal_keys p ! nat j"
          using srt mid "1.prems" j by (intro internal_sorted_mono) auto
        with klt show "key < internal_keys p ! nat j" by simp
      qed
      have "\<exists>i. Internal_Lookup_loop p key comparator left (mid - 1) = Some i \<and> 1 \<le> i \<and> i \<le> node_size p \<and>
         (\<forall>j. 1 \<le> j \<and> j < i \<longrightarrow> internal_keys p ! nat j \<le> key) \<and>
         (\<forall>j. i \<le> j \<and> j < node_size p \<longrightarrow> key < internal_keys p ! nat j)"
        using "1.IH"(1)[OF True at[unfolded mid_def] gt[unfolded mid_def] tw srt] mid "1.prems" upper
        unfolding mid_def[symmetric] by auto
      moreover have "Internal_Lookup_loop p key comparator left right =
                     Internal_Lookup_loop p key comparator left (mid - 1)"
        using True at gt by (subst Internal_Lookup_loop.simps) (simp add: mid_def)
      ultimately show ?thesis by simp
    next
      case le: False
      then have kle: "internal_keys p ! nat mid \<le> key"
        using tw by (simp add: three_way_gt)
      have lower: "\<forall>j. 1 \<le> j \<and> j < mid + 1 \<longrightarrow> internal_keys p ! nat j \<le> key"
      proof (intro allI impI)
        fix j assume j: "1 \<le> j \<and> j < mid + 1"
        have "internal_keys p ! nat j \<le> internal_keys p ! nat mid"
          using srt mid "1.prems" j by (intro internal_sorted_mono) auto
        with kle show "internal_keys p ! nat j \<le> key" by simp
      qed
      have "\<exists>i. Internal_Lookup_loop p key comparator (mid + 1) right = Some i \<and> 1 \<le> i \<and> i \<le> node_size p \<and>
         (\<forall>j. 1 \<le> j \<and> j < i \<longrightarrow> internal_keys p ! nat j \<le> key) \<and>
         (\<forall>j. i \<le> j \<and> j < node_size p \<longrightarrow> key < internal_keys p ! nat j)"
        using "1.IH"(2)[OF True at[unfolded mid_def] le[unfolded mid_def] tw srt] mid "1.prems" lower
        unfolding mid_def[symmetric] by auto
      moreover have "Internal_Lookup_loop p key comparator left right =
                     Internal_Lookup_loop p key comparator (mid + 1) right"
        using True at le by (subst Internal_Lookup_loop.simps) (simp add: mid_def)
      ultimately show ?thesis by simp
    qed
  qed
qed

text \<open>The search never reads the key in slot 0.\<close>

lemma Internal_Lookup_loop_slot0:
  "1 \<le> left \<Longrightarrow>
   Internal_Lookup_loop (p\<lparr>internal_array := (internal_array p)[0 := e]\<rparr>) key comparator left right =
   Internal_Lookup_loop p key comparator left right"
proof (induction p key comparator left right rule: Internal_Lookup_loop.induct)
  case (1 p key comparator left right)
  let ?p' = "p\<lparr>internal_array := (internal_array p)[0 := e]\<rparr>"
  show ?case
  proof (cases "left \<le> right")
    case False
    then show ?thesis
      by (simp add: Internal_Lookup_loop.simps[of ?p'] Internal_Lookup_loop.simps[of p])
  next
    case True
    define mid where "mid = left + (right - left) div 2"
    have mid: "1 \<le> mid"
      using True "1.prems" by (auto simp: mid_def)
    have same: "Internal_KeyAt ?p' mid = Internal_KeyAt p mid"
      using mid by (auto simp: Internal_KeyAt_def slot_get_def)
    show ?thesis
    proof (cases "Internal_KeyAt p mid")
      case None
      with same True show ?thesis
        by (simp add: Internal_Lookup_loop.simps[of ?p' key comparator left right]
            Internal_Lookup_loop.simps[of p key comparator left right] mid_def)
    next
      case (Some k)
      have "left \<le> mid + 1" using True by (simp add: mid_def)
      with "1.IH"(1)[OF True Some[unfolded mid_def]] "1.IH"(2)[OF True Some[unfolded mid_def]]
        "1.prems" mid same Some True
      show ?thesis
        by (simp add: Internal_Lookup_loop.simps[of ?p' key comparator left right]
            Internal_Lookup_loop.simps[of p key comparator left right] mid_def)
    qed
  qed
qed

lemma ValueAt_slot0:
  "ValueAt (p\<lparr>internal_array := (internal_array p)[0 := (k0, snd (internal_array p ! 0))]\<rparr>) j =
   ValueAt p j"
  by (cases "nat j") (auto simp: ValueAt_def slot_get_def nth_list_update)

text \<open>
  Claim C7. For an internal node of size at least 1 whose keys from index 1 on are
  strictly increasing, \<open>Lookup\<close> returns the value at \<open>i - 1\<close>, where \<open>i\<close> is the smallest
  index above 0 whose key is greater than \<open>key\<close>, and the size when there is none. The
  key at index 0 is never consulted: replacing it by any other key leaves the result
  unchanged.
\<close>

theorem Internal_Lookup_child:
  assumes "three_way comparator" and "internal_sorted p"
  shows "(\<exists>i. 1 \<le> i \<and> i \<le> node_size p \<and>
            (\<forall>j. 1 \<le> j \<and> j < i \<longrightarrow> \<not> key < internal_keys p ! nat j) \<and>
            (i = node_size p \<or> key < internal_keys p ! nat i) \<and>
            Internal_Lookup p key comparator = Some (internal_values p ! nat (i - 1))) \<and>
         (\<forall>k0. Internal_Lookup
                 (p\<lparr>internal_array := (internal_array p)[0 := (k0, snd (internal_array p ! 0))]\<rparr>)
                 key comparator =
               Internal_Lookup p key comparator)"
proof
  have sz: "1 \<le> node_size p" "node_size p \<le> int (length (internal_array p))"
    using assms(2) by (auto simp: internal_sorted_def)
  have "(1::int) \<le> 1" "node_size p - 1 < node_size p" "1 \<le> node_size p - 1 + 1"
    "\<forall>j. 1 \<le> j \<and> j < 1 \<longrightarrow> internal_keys p ! nat j \<le> key"
    "\<forall>j. node_size p - 1 < j \<and> j < node_size p \<longrightarrow> key < internal_keys p ! nat j"
    using sz by auto
  from Internal_Lookup_loop_least[OF assms this]
  obtain i where i: "Internal_Lookup_loop p key comparator 1 (node_size p - 1) = Some i"
      "1 \<le> i" "i \<le> node_size p"
      "\<forall>j. 1 \<le> j \<and> j < i \<longrightarrow> internal_keys p ! nat j \<le> key"
      "\<forall>j. i \<le> j \<and> j < node_size p \<longrightarrow> key < internal_keys p ! nat j"
    by blast
  have v: "ValueAt p (i - 1) = Some (internal_values p ! nat (i - 1))"
    using i(2,3) sz by (intro ValueAt_values) auto
  have "Internal_Lookup p key comparator = Some (internal_values p ! nat (i - 1))"
    using i(1,2) v by (simp add: Internal_Lookup_def GetSize_def)
  moreover have "\<forall>j. 1 \<le> j \<and> j < i \<longrightarrow> \<not> key < internal_keys p ! nat j"
    using i(4) by (auto simp: not_less)
  moreover have "i = node_size p \<or> key < internal_keys p ! nat i"
    using i(3) i(5)[rule_format, of i] by linarith
  ultimately show "\<exists>i. 1 \<le> i \<and> i \<le> node_size p \<and>
            (\<forall>j. 1 \<le> j \<and> j < i \<longrightarrow> \<not> key < internal_keys p ! nat j) \<and>
            (i = node_size p \<or> key < internal_keys p ! nat i) \<and>
            Internal_Lookup p key comparator = Some (internal_values p ! nat (i - 1))"
    using i(2,3) by blast
next
  show "\<forall>k0. Internal_Lookup
                 (p\<lparr>internal_array := (internal_array p)[0 := (k0, snd (internal_array p ! 0))]\<rparr>)
                 key comparator =
               Internal_Lookup p key comparator"
    by (simp add: Internal_Lookup_def GetSize_def Internal_Lookup_loop_slot0 ValueAt_slot0
        split: option.splits)
qed

theorem Internal_Lookup_child_witness:
  "three_way (GenericComparator :: int \<Rightarrow> int \<Rightarrow> int) \<and> internal_sorted example_internal \<and>
   (\<exists>i. 1 \<le> i \<and> i \<le> node_size example_internal \<and>
        (\<forall>j. 1 \<le> j \<and> j < i \<longrightarrow> \<not> 25 < internal_keys example_internal ! nat j) \<and>
        (i = node_size example_internal \<or> 25 < internal_keys example_internal ! nat i) \<and>
        Internal_Lookup example_internal 25 GenericComparator =
          Some (internal_values example_internal ! nat (i - 1))) \<and>
   Internal_Lookup
     (example_internal\<lparr>internal_array :=
        (internal_array example_internal)[0 := (99, snd (internal_array example_internal ! 0))]\<rparr>)
     25 GenericComparator = Internal_Lookup example_internal 25 GenericComparator \<and>
   Internal_Lookup example_internal 25 GenericComparator = Some 12 \<and>
   Internal_Lookup example_internal 5 GenericComparator = Some 11 \<and>
   Internal_Lookup example_internal 30 GenericComparator = Some 13"
proof -
  have srt: "internal_sorted example_internal"
    by code_simp
  note inst = Internal_Lookup_child[OF three_way_GenericComparator srt, of 25]
  have "Internal_Lookup example_internal 25 GenericComparator = Some 12"
    "Internal_Lookup example_internal 5 GenericComparator = Some 11"
    "Internal_Lookup example_internal 30 GenericComparator = Some 13"
    by code_simp+
  then show ?thesis
    using three_way_GenericComparator srt inst[THEN conjunct1] inst[THEN conjunct2, rule_format, of 99]
    by blast
qed

subsection \<open>Leaf page: the shifting loops, and KeyIndex on stored and absent keys\<close>

text \<open>The two shifting loops, slot by slot.\<close>

lemma shift_left_nth:
  "0 \<le> i \<Longrightarrow> i \<le> n \<Longrightarrow> n < int (length xs) \<Longrightarrow>
   \<exists>ys. shift_left xs i n = Some ys \<and> length ys = length xs \<and>
        (\<forall>k < length xs. ys ! k = (if nat i \<le> k \<and> k < nat n then xs ! Suc k else xs ! k))"
proof (induction xs i n rule: shift_left.induct)
  case (1 xs i n)
  show ?case
  proof (cases "i < n")
    case False
    with "1.prems" show ?thesis
      by (subst shift_left.simps) auto
  next
    case True
    have g: "slot_get xs (i + 1) = Some (xs ! nat (i + 1))"
      using True "1.prems" by (simp add: slot_get_def)
    have s: "slot_set xs i (xs ! nat (i + 1)) = Some (xs[nat i := xs ! nat (i + 1)])"
      using True "1.prems" by (simp add: slot_set_def)
    let ?xs' = "xs[nat i := xs ! nat (i + 1)]"
    from "1.IH"[OF True g s] True "1.prems"
    obtain ys where ys: "shift_left ?xs' (i + 1) n = Some ys" "length ys = length xs"
      "\<forall>k < length xs. ys ! k = (if nat (i + 1) \<le> k \<and> k < nat n then ?xs' ! Suc k else ?xs' ! k)"
      by auto
    have "shift_left xs i n = Some ys"
      using True g s ys(1) by (subst shift_left.simps) simp
    moreover have "\<forall>k < length xs. ys ! k = (if nat i \<le> k \<and> k < nat n then xs ! Suc k else xs ! k)"
    proof (intro allI impI)
      fix k assume k: "k < length xs"
      show "ys ! k = (if nat i \<le> k \<and> k < nat n then xs ! Suc k else xs ! k)"
        using ys(3)[rule_format, OF k] k True "1.prems"
        by (auto simp: nth_list_update nat_add_distrib)
    qed
    ultimately show ?thesis using ys(2) by blast
  qed
qed

lemma shift_right_nth:
  "0 \<le> t \<Longrightarrow> t \<le> i \<Longrightarrow> i < int (length xs) \<Longrightarrow>
   \<exists>ys. shift_right xs i t = Some ys \<and> length ys = length xs \<and>
        (\<forall>k < length xs. ys ! k = (if nat t < k \<and> k \<le> nat i then xs ! (k - 1) else xs ! k))"
proof (induction xs i t rule: shift_right.induct)
  case (1 xs i t)
  show ?case
  proof (cases "i > t")
    case False
    with "1.prems" show ?thesis
      by (subst shift_right.simps) auto
  next
    case True
    have g: "slot_get xs (i - 1) = Some (xs ! nat (i - 1))"
      using True "1.prems" by (simp add: slot_get_def)
    have s: "slot_set xs i (xs ! nat (i - 1)) = Some (xs[nat i := xs ! nat (i - 1)])"
      using True "1.prems" by (simp add: slot_set_def)
    let ?xs' = "xs[nat i := xs ! nat (i - 1)]"
    from "1.IH"[OF True g s] True "1.prems"
    obtain ys where ys: "shift_right ?xs' (i - 1) t = Some ys" "length ys = length xs"
      "\<forall>k < length xs. ys ! k = (if nat t < k \<and> k \<le> nat (i - 1) then ?xs' ! (k - 1) else ?xs' ! k)"
      by auto
    have "shift_right xs i t = Some ys"
      using True g s ys(1) by (subst shift_right.simps) simp
    moreover have "\<forall>k < length xs. ys ! k = (if nat t < k \<and> k \<le> nat i then xs ! (k - 1) else xs ! k)"
    proof (intro allI impI)
      fix k assume k: "k < length xs"
      show "ys ! k = (if nat t < k \<and> k \<le> nat i then xs ! (k - 1) else xs ! k)"
        using ys(3)[rule_format, OF k] k True "1.prems"
        by (auto simp: nth_list_update nat_diff_distrib)
    qed
    ultimately show ?thesis using ys(2) by blast
  qed
qed

lemma three_way_eq: "three_way comparator \<Longrightarrow> (comparator a b = 0) = (a = b)"
  by (simp add: three_way_def)

text \<open>Where \<open>KeyIndex\<close> lands for a key that is stored, and for one that is not.\<close>

lemma KeyIndex_present:
  assumes tw: "three_way comparator" and srt: "leaf_sorted p"
    and t: "t < length (leaf_keys p)" and key: "leaf_keys p ! t = key"
  shows "KeyIndex p key comparator = Some (int t)"
proof -
  have len: "length (leaf_keys p) = nat (node_size p)"
    using srt by (simp add: leaf_sorted_def length_leaf_keys)
  have sw: "sorted_wrt (<) (leaf_keys p)"
    using srt by (simp add: leaf_sorted_def)
  obtain i where i: "KeyIndex p key comparator = Some i" "0 \<le> i" "i \<le> node_size p"
    "\<forall>j < nat i. leaf_keys p ! j < key" "i = node_size p \<or> key \<le> leaf_keys p ! nat i"
    using KeyIndex_smallest[OF tw srt, of key] by blast
  have "\<not> t < nat i"
    using i(4) key by auto
  moreover have "\<not> nat i < t"
  proof
    assume lt: "nat i < t"
    then have "leaf_keys p ! nat i < leaf_keys p ! t"
      using sw t by (simp add: sorted_wrt_nth_less)
    moreover have "i \<noteq> node_size p"
      using lt t len by auto
    ultimately show False
      using i(5) key by auto
  qed
  ultimately have "nat i = t" by simp
  with i(1,2) show ?thesis by auto
qed

lemma KeyIndex_absent:
  assumes tw: "three_way comparator" and srt: "leaf_sorted p"
    and absent: "key \<notin> set (leaf_keys p)"
  shows "\<exists>i. KeyIndex p key comparator = Some i \<and> 0 \<le> i \<and> i \<le> node_size p \<and>
           (i = node_size p \<or> KeyAt p i = Some (leaf_keys p ! nat i) \<and> leaf_keys p ! nat i \<noteq> key)"
proof -
  have len: "length (leaf_keys p) = nat (node_size p)"
    and bound: "node_size p \<le> int (length (array p))"
    using srt by (simp_all add: leaf_sorted_def length_leaf_keys)
  obtain i where i: "KeyIndex p key comparator = Some i" "0 \<le> i" "i \<le> node_size p"
    using KeyIndex_smallest[OF tw srt, of key] by blast
  have "KeyAt p i = Some (leaf_keys p ! nat i) \<and> leaf_keys p ! nat i \<noteq> key" if "i \<noteq> node_size p"
  proof -
    have lt: "i < node_size p" using that i(3) by simp
    then have "leaf_keys p ! nat i \<in> set (leaf_keys p)"
      using i(2) len by (intro nth_mem) simp
    with absent have "leaf_keys p ! nat i \<noteq> key" by auto
    then show ?thesis
      using KeyAt_leaf_keys[OF i(2) lt bound] by simp
  qed
  with i show ?thesis by blast
qed

subsection \<open>Leaf page: RemoveAndDeleteRecord\<close>

text \<open>
  Without a match the node is unchanged; with a match at index \<open>t\<close> the entries after \<open>t\<close>
  move left by one and the size goes down by one. The result is the new size turned
  into a truth value.
\<close>

lemma RemoveAndDeleteRecord_absent:
  assumes "three_way comparator" and "leaf_sorted p" and "key \<notin> set (leaf_keys p)"
  shows "RemoveAndDeleteRecord p key comparator = Some (node_size p \<noteq> 0, p)"
proof -
  obtain i where i: "KeyIndex p key comparator = Some i"
    "i = node_size p \<or> KeyAt p i = Some (leaf_keys p ! nat i) \<and> leaf_keys p ! nat i \<noteq> key"
    using KeyIndex_absent[OF assms] by blast
  then show ?thesis
    using assms(1) by (auto simp: RemoveAndDeleteRecord_def GetSize_def three_way_eq)
qed

lemma RemoveAndDeleteRecord_present:
  assumes tw: "three_way comparator" and srt: "leaf_sorted p"
    and t: "t < length (leaf_keys p)" and key: "leaf_keys p ! t = key"
  shows "\<exists>a. RemoveAndDeleteRecord p key comparator =
               Some (node_size p - 1 \<noteq> 0, p\<lparr>node_size := node_size p - 1, array := a\<rparr>) \<and>
             length a = length (array p) \<and>
             leaf_entries (p\<lparr>node_size := node_size p - 1, array := a\<rparr>) =
               take t (leaf_entries p) @ drop (Suc t) (leaf_entries p)"
proof -
  have len: "length (leaf_keys p) = nat (node_size p)"
    and bound: "node_size p \<le> int (length (array p))" and nonneg: "0 \<le> node_size p"
    using srt by (simp_all add: leaf_sorted_def length_leaf_keys)
  have tlt: "int t < node_size p" using t len by simp
  have ki: "KeyIndex p key comparator = Some (int t)"
    using KeyIndex_present[OF assms] .
  have ka: "KeyAt p (int t) = Some key"
    using KeyAt_leaf_keys[of "int t" p] tlt bound key by simp
  obtain a where a: "shift_left (array p) (int t) (node_size p - 1) = Some a"
    "length a = length (array p)"
    "\<forall>k < length (array p). a ! k =
        (if nat (int t) \<le> k \<and> k < nat (node_size p - 1) then array p ! Suc k else array p ! k)"
    using shift_left_nth[of "int t" "node_size p - 1" "array p"] tlt bound by auto
  have res: "RemoveAndDeleteRecord p key comparator =
               Some (node_size p - 1 \<noteq> 0, p\<lparr>node_size := node_size p - 1, array := a\<rparr>)"
    using ki ka a(1) tlt tw
    by (simp add: RemoveAndDeleteRecord_def GetSize_def IncreaseSize_def three_way_eq)
  have "take (nat (node_size p - 1)) a =
          take t (take (nat (node_size p)) (array p)) @ drop (Suc t) (take (nat (node_size p)) (array p))"
  proof (rule nth_equalityI)
    show "length (take (nat (node_size p - 1)) a) =
          length (take t (take (nat (node_size p)) (array p)) @
                  drop (Suc t) (take (nat (node_size p)) (array p)))"
      using a(2) tlt bound by auto
  next
    fix k assume "k < length (take (nat (node_size p - 1)) a)"
    then have k: "k < nat (node_size p - 1)" "k < length (array p)"
      using a(2) by auto
    show "take (nat (node_size p - 1)) a ! k =
          (take t (take (nat (node_size p)) (array p)) @
           drop (Suc t) (take (nat (node_size p)) (array p))) ! k"
    proof (cases "k < t")
      case True
      then show ?thesis
        using k a(3)[rule_format, OF k(2)] tlt by (simp add: nth_append)
    next
      case False
      then have "Suc t + (k - t) = Suc k" by simp
      then have "drop (Suc t) (take (nat (node_size p)) (array p)) ! (k - t) = array p ! Suc k"
        using k by simp
      then show ?thesis
        using False k a(3)[rule_format, OF k(2)] tlt by (simp add: nth_append)
    qed
  qed
  then have "leaf_entries (p\<lparr>node_size := node_size p - 1, array := a\<rparr>) =
               take t (leaf_entries p) @ drop (Suc t) (leaf_entries p)"
    by (simp add: leaf_entries_def)
  with res a(2) show ?thesis by blast
qed

text \<open>
  Claim C2: \<open>RemoveAndDeleteRecord\<close> removes the entry that matches the key, leaves the
  node unchanged when there is none, and returns \<open>true\<close> exactly when a record was
  removed. The source does the first two, as the lemmas above show, and fails the third:
  its result is the size after the call converted to \<open>bool\<close>. Removing the only entry of a leaf returns \<open>false\<close>
  although a record was removed, and a key that is absent from a leaf that is not empty
  returns \<open>true\<close> although nothing was removed. The third line shows a removal in the
  middle of a leaf: the tail moves left by one and the size goes down by one.
\<close>

theorem RemoveAndDeleteRecord_result_is_size:
  "RemoveAndDeleteRecord single_leaf 5 GenericComparator =
     Some (False, single_leaf\<lparr>node_size := 0\<rparr>) \<and>
   RemoveAndDeleteRecord single_leaf 7 GenericComparator = Some (True, single_leaf) \<and>
   RemoveAndDeleteRecord example_leaf 20 GenericComparator =
     Some (True, example_leaf\<lparr>node_size := 2,
                              array := [(10, 100), (30, 300), (30, 300), (0, 0)]\<rparr>)"
  by code_simp

subsection \<open>Leaf page: Insert\<close>

text \<open>
  A key that is stored leaves the node unchanged. A key that is not stored is inserted at
  \<open>KeyIndex\<close>, the entries from there on moving right by one, provided the page has a
  free slot and the slot just past the last entry does not hold the key.
\<close>

lemma Insert_present:
  assumes "three_way comparator" and "leaf_sorted p"
    and "t < length (leaf_keys p)" and "leaf_keys p ! t = key"
  shows "Insert p key val comparator = Some (node_size p, p)"
proof -
  have bound: "node_size p \<le> int (length (array p))"
    and len: "length (leaf_keys p) = nat (node_size p)"
    using assms(2) by (simp_all add: leaf_sorted_def length_leaf_keys)
  have "KeyIndex p key comparator = Some (int t)"
    using KeyIndex_present[OF assms] .
  moreover have "KeyAt p (int t) = Some key"
    using KeyAt_leaf_keys[of "int t" p] assms(3,4) len bound by simp
  ultimately show ?thesis
    using assms(1) by (simp add: Insert_def GetSize_def three_way_eq)
qed

lemma Insert_absent:
  assumes tw: "three_way comparator" and srt: "leaf_sorted p"
    and absent: "key \<notin> set (leaf_keys p)"
    and room: "node_size p < int (length (array p))"
    and past: "KeyAt p (node_size p) \<noteq> Some key"
  shows "\<exists>i a. KeyIndex p key comparator = Some i \<and>
           Insert p key val comparator =
             Some (node_size p + 1, p\<lparr>array := a, node_size := node_size p + 1\<rparr>) \<and>
           length a = length (array p) \<and>
           leaf_entries (p\<lparr>array := a, node_size := node_size p + 1\<rparr>) =
             take (nat i) (leaf_entries p) @ [(key, val)] @ drop (nat i) (leaf_entries p)"
proof -
  have nonneg: "0 \<le> node_size p"
    using srt by (simp add: leaf_sorted_def)
  obtain i where i: "KeyIndex p key comparator = Some i" "0 \<le> i" "i \<le> node_size p"
    "i = node_size p \<or> KeyAt p i = Some (leaf_keys p ! nat i) \<and> leaf_keys p ! nat i \<noteq> key"
    using KeyIndex_absent[OF tw srt absent] by blast
  obtain k0 where k0: "KeyAt p i = Some k0" "k0 \<noteq> key"
  proof (cases "i = node_size p")
    case True
    have "KeyAt p (node_size p) = Some (fst (array p ! nat (node_size p)))"
      using room nonneg by (simp add: KeyAt_def slot_get_def)
    with past True that show ?thesis by auto
  next
    case False
    with i(4) that show ?thesis by auto
  qed
  obtain a1 where a1: "shift_right (array p) (node_size p) i = Some a1"
    "length a1 = length (array p)"
    "\<forall>k < length (array p). a1 ! k =
        (if nat i < k \<and> k \<le> nat (node_size p) then array p ! (k - 1) else array p ! k)"
    using shift_right_nth[of i "node_size p" "array p"] i(2,3) room by auto
  let ?a = "a1[nat i := (key, val)]"
  have set: "slot_set a1 i (key, val) = Some ?a"
    using a1(2) i(2,3) room by (simp add: slot_set_def)
  have res: "Insert p key val comparator =
             Some (node_size p + 1, p\<lparr>array := ?a, node_size := node_size p + 1\<rparr>)"
    using i(1) k0 a1(1) set tw
    by (simp add: Insert_def GetSize_def IncreaseSize_def three_way_eq)
  have "take (nat (node_size p + 1)) ?a =
          take (nat i) (take (nat (node_size p)) (array p)) @ [(key, val)] @
          drop (nat i) (take (nat (node_size p)) (array p))"
  proof (rule nth_equalityI)
    show "length (take (nat (node_size p + 1)) ?a) =
          length (take (nat i) (take (nat (node_size p)) (array p)) @ [(key, val)] @
                  drop (nat i) (take (nat (node_size p)) (array p)))"
      using a1(2) i(2,3) room nonneg by auto
  next
    fix k assume "k < length (take (nat (node_size p + 1)) ?a)"
    then have k: "k < nat (node_size p + 1)" "k < length (array p)"
      using a1(2) by auto
    show "take (nat (node_size p + 1)) ?a ! k =
          (take (nat i) (take (nat (node_size p)) (array p)) @ [(key, val)] @
           drop (nat i) (take (nat (node_size p)) (array p))) ! k"
    proof -
      consider "k < nat i" | "k = nat i" | "nat i < k" by linarith
      then show ?thesis
      proof cases
        case 1
        then show ?thesis
          using k a1(2) a1(3)[rule_format, OF k(2)] i(2,3) by (simp add: nth_append)
      next
        case 2
        then show ?thesis
          using k a1(2) i(2,3) by (simp add: nth_append)
      next
        case 3
        let ?es = "take (nat (node_size p)) (array p)"
        have les: "length ?es = nat (node_size p)"
          using room nonneg by simp
        have kle: "k \<le> nat (node_size p)"
          using k(1) nonneg by simp
        have lhs: "take (nat (node_size p + 1)) ?a ! k = array p ! (k - 1)"
          using 3 k kle a1(2) a1(3)[rule_format, OF k(2)] by simp
        have "(take (nat i) ?es @ [(key, val)] @ drop (nat i) ?es) ! k =
              ([(key, val)] @ drop (nat i) ?es) ! (k - nat i)"
          using 3 les i(2,3) by (simp add: nth_append)
        also have "\<dots> = drop (nat i) ?es ! (k - nat i - 1)"
          using 3 by (simp add: nth_Cons')
        also have "\<dots> = ?es ! (nat i + (k - nat i - 1))"
          using les i(2,3) by simp
        also have "nat i + (k - nat i - 1) = k - 1"
          using 3 by simp
        also have "?es ! (k - 1) = array p ! (k - 1)"
          using 3 kle by simp
        finally show ?thesis
          using lhs by simp
      qed
    qed
  qed
  then have "leaf_entries (p\<lparr>array := ?a, node_size := node_size p + 1\<rparr>) =
             take (nat i) (leaf_entries p) @ [(key, val)] @ drop (nat i) (leaf_entries p)"
    by (simp add: leaf_entries_def)
  with res i(1) a1(2) show ?thesis
    by (intro exI[of _ i] exI[of _ ?a]) simp
qed

text \<open>
  Claim C4: on a leaf with strictly increasing keys, \<open>Insert\<close> returns the size and
  leaves the node unchanged when the key is stored, and otherwise inserts the pair at
  \<open>KeyIndex\<close> and returns the size plus one. The source fails the second part:
  \<open>Insert\<close> compares the key in slot \<open>KeyIndex\<close> with the new key also when \<open>KeyIndex\<close> is the size, where the slot holds what was last
  written there. After inserting 1 and 5 into an empty leaf and removing 5, slot 1 still
  holds the key 5: the leaf has the single key 1, \<open>Lookup 5\<close> finds nothing, and
  \<open>Insert 5\<close> returns the size 1 with the leaf unchanged instead of inserting.
\<close>

theorem Insert_reads_slot_past_the_end:
  "Insert fresh_leaf 1 10 GenericComparator =
     Some (1, fresh_leaf\<lparr>node_size := 1, array := [(1, 10), (0, 0), (0, 0), (0, 0)]\<rparr>) \<and>
   Insert (fresh_leaf\<lparr>node_size := 1, array := [(1, 10), (0, 0), (0, 0), (0, 0)]\<rparr>) 5 50
       GenericComparator =
     Some (2, fresh_leaf\<lparr>node_size := 2, array := [(1, 10), (5, 50), (0, 0), (0, 0)]\<rparr>) \<and>
   RemoveAndDeleteRecord
       (fresh_leaf\<lparr>node_size := 2, array := [(1, 10), (5, 50), (0, 0), (0, 0)]\<rparr>) 5
       GenericComparator =
     Some (True, fresh_leaf\<lparr>node_size := 1, array := [(1, 10), (5, 50), (0, 0), (0, 0)]\<rparr>) \<and>
   leaf_sorted (fresh_leaf\<lparr>node_size := 1, array := [(1, 10), (5, 50), (0, 0), (0, 0)]\<rparr>) \<and>
   leaf_keys (fresh_leaf\<lparr>node_size := 1, array := [(1, 10), (5, 50), (0, 0), (0, 0)]\<rparr>) = [1] \<and>
   Lookup (fresh_leaf\<lparr>node_size := 1, array := [(1, 10), (5, 50), (0, 0), (0, 0)]\<rparr>) 5
       GenericComparator = Some None \<and>
   Insert (fresh_leaf\<lparr>node_size := 1, array := [(1, 10), (5, 50), (0, 0), (0, 0)]\<rparr>) 5 99
       GenericComparator =
     Some (1, fresh_leaf\<lparr>node_size := 1, array := [(1, 10), (5, 50), (0, 0), (0, 0)]\<rparr>)"
  by code_simp

subsection \<open>Buffer pool: UnpinPage and DeletePage\<close>

text \<open>
  Claim C5. \<open>UnpinPage\<close> returns \<open>false\<close> and leaves the pool unchanged when the page id
  is not in the page table or the pin count of the mapped frame is 0. Otherwise it
  returns \<open>true\<close>; the pin count goes down by one, the dirty flag becomes its old value
  or \<open>is_dirty\<close>, and the replacer is the result of \<open>Unpin\<close> on the frame exactly when the
  new pin count is 0 and is unchanged otherwise.
\<close>

theorem UnpinPage_contract:
  "(page_table b pid = None \<longrightarrow> UnpinPage b pid dirty = Some (False, b)) \<and>
   (\<forall>f. page_table b pid = Some f \<and> f < length (pages b) \<and> pin_count (pages b ! f) = 0 \<longrightarrow>
        UnpinPage b pid dirty = Some (False, b)) \<and>
   (\<forall>f. page_table b pid = Some f \<and> f < length (pages b) \<and>
        f < length (ref_flag (replacer b)) \<and> pin_count (pages b ! f) \<noteq> 0 \<longrightarrow>
        (\<exists>r'. Unpin (replacer b) f = Some r' \<and>
           UnpinPage b pid dirty =
             Some (True,
                   b\<lparr>pages := (pages b)[f := (pages b ! f)
                          \<lparr>pin_count := pin_count (pages b ! f) - 1,
                            is_dirty := is_dirty (pages b ! f) \<or> dirty\<rparr>],
                     replacer := (if pin_count (pages b ! f) - 1 = 0 then r' else replacer b)\<rparr>)))"
  by (auto simp: UnpinPage_def Unpin_def Let_def)

theorem UnpinPage_contract_witness:
  "UnpinPage example_pool 5 True = Some (False, example_pool) \<and>
   UnpinPage example_pool 8 True = Some (False, example_pool) \<and>
   UnpinPage example_pool 7 True =
     Some (True,
           example_pool
             \<lparr>pages := [\<lparr>data = [1, 2], page_id = 7, pin_count = 0, is_dirty = True\<rparr>,
                        \<lparr>data = [3, 4], page_id = 8, pin_count = 0, is_dirty = True\<rparr>],
               replacer := \<lparr>num_pages = 2, pointer = 0, ref_flag = [True, True]\<rparr>\<rparr>)"
proof -
  have "UnpinPage example_pool 5 True = Some (False, example_pool)"
    using UnpinPage_contract[of example_pool 5 True, THEN conjunct1]
    by (simp add: example_pool_def)
  moreover have "UnpinPage example_pool 8 True = Some (False, example_pool)"
    using UnpinPage_contract[of example_pool 8 True, THEN conjunct2, THEN conjunct1, rule_format, of 1]
    by (simp add: example_pool_def)
  moreover have "UnpinPage example_pool 7 True =
     Some (True,
           example_pool
             \<lparr>pages := [\<lparr>data = [1, 2], page_id = 7, pin_count = 0, is_dirty = True\<rparr>,
                        \<lparr>data = [3, 4], page_id = 8, pin_count = 0, is_dirty = True\<rparr>],
               replacer := \<lparr>num_pages = 2, pointer = 0, ref_flag = [True, True]\<rparr>\<rparr>)"
    using UnpinPage_contract[of example_pool 7 True, THEN conjunct2, THEN conjunct2, rule_format, of 0]
    by (simp add: example_pool_def Unpin_def)
  ultimately show ?thesis by simp
qed

text \<open>
  Claim C6. \<open>DeletePage\<close> returns \<open>true\<close> and leaves the pool unchanged when the page id
  is not in the page table, and returns \<open>false\<close> and leaves the pool unchanged when the
  mapped frame has a pin count above 0. Otherwise it returns \<open>true\<close>: the frame's page is
  written to disk exactly when the frame is dirty, the mapping of the page id is removed,
  the frame's memory is zeroed, its page id becomes \<open>INVALID_PAGE_ID\<close> and it is not
  dirty, and the frame index is appended to the free list.
\<close>

theorem DeletePage_contract:
  "(page_table b pid = None \<longrightarrow> DeletePage b pid = Some (True, b)) \<and>
   (\<forall>f. mapped_to b pid f \<and> pin_count (pages b ! f) > 0 \<longrightarrow>
        DeletePage b pid = Some (False, b)) \<and>
   (\<forall>f. mapped_to b pid f \<and> \<not> pin_count (pages b ! f) > 0 \<longrightarrow>
        DeletePage b pid =
          Some (True,
                b\<lparr>disk_writes := (if is_dirty (pages b ! f)
                                   then disk_writes b @ [(pid, data (pages b ! f))]
                                   else disk_writes b),
                  page_table := (page_table b)(pid := None),
                  pages := (pages b)[f := (pages b ! f)
                             \<lparr>data := replicate (length (data (pages b ! f))) 0,
                               page_id := INVALID_PAGE_ID,
                               is_dirty := False\<rparr>],
                  free_list := free_list b @ [f]\<rparr>))"
proof (intro conjI allI impI)
  assume "page_table b pid = None"
  then show "DeletePage b pid = Some (True, b)"
    by (simp add: DeletePage_def)
next
  fix f
  assume "mapped_to b pid f \<and> pin_count (pages b ! f) > 0"
  then show "DeletePage b pid = Some (False, b)"
    by (simp add: DeletePage_def mapped_to_def)
next
  fix f
  assume a: "mapped_to b pid f \<and> \<not> pin_count (pages b ! f) > 0"
  obtain d i c dirt where pg:
    "pages b ! f = \<lparr>data = d, page_id = i, pin_count = c, is_dirty = dirt\<rparr>"
    by (cases "pages b ! f")
  from a pg show "DeletePage b pid =
          Some (True,
                b\<lparr>disk_writes := (if is_dirty (pages b ! f)
                                   then disk_writes b @ [(pid, data (pages b ! f))]
                                   else disk_writes b),
                  page_table := (page_table b)(pid := None),
                  pages := (pages b)[f := (pages b ! f)
                             \<lparr>data := replicate (length (data (pages b ! f))) 0,
                               page_id := INVALID_PAGE_ID,
                               is_dirty := False\<rparr>],
                  free_list := free_list b @ [f]\<rparr>)"
    by (simp add: DeletePage_def UpdatePage_def mapped_to_def Let_def ResetMemory_def)
qed

theorem DeletePage_contract_witness:
  "DeletePage example_pool 5 = Some (True, example_pool) \<and>
   DeletePage example_pool 7 = Some (False, example_pool) \<and>
   DeletePage example_pool 8 =
     Some (True,
           example_pool
             \<lparr>disk_writes := [(8, [3, 4])],
               page_table := (page_table example_pool)(8 := None),
               pages := [\<lparr>data = [1, 2], page_id = 7, pin_count = 1, is_dirty = False\<rparr>,
                        \<lparr>data = [0, 0], page_id = - 1, pin_count = 0, is_dirty = False\<rparr>],
               free_list := [1]\<rparr>)"
proof -
  have "DeletePage example_pool 5 = Some (True, example_pool)"
    using DeletePage_contract[of example_pool 5, THEN conjunct1]
    by (simp add: example_pool_def)
  moreover have "DeletePage example_pool 7 = Some (False, example_pool)"
    using DeletePage_contract[of example_pool 7, THEN conjunct2, THEN conjunct1, rule_format, of 0]
    by (simp add: example_pool_def mapped_to_def)
  moreover have "DeletePage example_pool 8 =
     Some (True,
           example_pool
             \<lparr>disk_writes := [(8, [3, 4])],
               page_table := (page_table example_pool)(8 := None),
               pages := [\<lparr>data = [1, 2], page_id = 7, pin_count = 1, is_dirty = False\<rparr>,
                        \<lparr>data = [0, 0], page_id = - 1, pin_count = 0, is_dirty = False\<rparr>],
               free_list := [1]\<rparr>)"
    using DeletePage_contract[of example_pool 8, THEN conjunct2, THEN conjunct2, rule_format, of 1]
    by (simp add: example_pool_def mapped_to_def INVALID_PAGE_ID_def)
  ultimately show ?thesis by simp
qed
subsection \<open>Page guards: moving\<close>

text \<open>
  The move constructor leaves a guard whose drop does nothing to any pool; the move
  assignment leaves the guard moved from exactly as it was.
\<close>

lemma BasicPageGuard_move_source:
  assumes "BasicPageGuard_move that b = Some (this, that', b', calls)"
  shows "guard_bpm this = guard_bpm that \<and> guard_page this = guard_page that \<and>
         guard_is_dirty this = guard_is_dirty that \<and> b' = b \<and> calls = [] \<and>
         Drop that' b2 = Some (that', b2, [])"
  using assms
  by (auto simp: BasicPageGuard_move_def Drop_def empty_guard_def)

lemma BasicPageGuard_assign_source:
  assumes "BasicPageGuard_assign this that b = Some (this', that', b', calls)"
  shows "that' = that \<and> guard_bpm this' = guard_bpm that \<and>
         guard_page this' = guard_page that \<and> guard_is_dirty this' = guard_is_dirty that"
  using assms
  by (auto simp: BasicPageGuard_assign_def split: option.splits)

text \<open>
  Claim C3: moving from a guard that owns a pinned frame leaves the guard moved from
  empty, so that dropping it calls \<open>UnpinPage\<close> no second time. The source fails this for
  move assignment: \<open>operator=\<close> copies the three fields and leaves the guard moved from as it was, so both guards own the frame afterwards.
  Dropping the guard moved from calls \<open>UnpinPage\<close> on page 7 (the pin count falls to 0
  and the frame becomes a candidate of the replacer while the other guard still holds
  it), and dropping the other guard calls \<open>UnpinPage\<close> on page 7 a second time. The move
  assignment of the write guard does the same. The move constructor does clear the
  pool pointer of the guard moved from, whose drop is then a no-op.
\<close>

theorem move_assignment_keeps_source_owning:
  "BasicPageGuard_assign empty_guard owning_guard example_pool =
     Some (owning_guard, owning_guard, example_pool, []) \<and>
   Drop owning_guard example_pool =
     Some (owning_guard\<lparr>guard_bpm := None, guard_page := None\<rparr>,
           example_pool
             \<lparr>pages := [\<lparr>data = [1, 2], page_id = 7, pin_count = 0, is_dirty = False\<rparr>,
                        \<lparr>data = [3, 4], page_id = 8, pin_count = 0, is_dirty = True\<rparr>],
               replacer := \<lparr>num_pages = 2, pointer = 0, ref_flag = [True, True]\<rparr>\<rparr>,
           [(7, False)]) \<and>
   Drop owning_guard
     (example_pool
        \<lparr>pages := [\<lparr>data = [1, 2], page_id = 7, pin_count = 0, is_dirty = False\<rparr>,
                   \<lparr>data = [3, 4], page_id = 8, pin_count = 0, is_dirty = True\<rparr>],
          replacer := \<lparr>num_pages = 2, pointer = 0, ref_flag = [True, True]\<rparr>\<rparr>) =
     Some (owning_guard\<lparr>guard_bpm := None, guard_page := None\<rparr>,
           example_pool
             \<lparr>pages := [\<lparr>data = [1, 2], page_id = 7, pin_count = 0, is_dirty = False\<rparr>,
                        \<lparr>data = [3, 4], page_id = 8, pin_count = 0, is_dirty = True\<rparr>],
               replacer := \<lparr>num_pages = 2, pointer = 0, ref_flag = [True, True]\<rparr>\<rparr>,
           [(7, False)]) \<and>
   WritePageGuard_assign \<lparr>guard = empty_guard\<rparr> \<lparr>guard = owning_guard\<rparr> example_pool =
     Some (\<lparr>guard = owning_guard\<rparr>, \<lparr>guard = owning_guard\<rparr>, example_pool, []) \<and>
   BasicPageGuard_move owning_guard example_pool =
     Some (owning_guard, owning_guard\<lparr>guard_bpm := None\<rparr>, example_pool, []) \<and>
   Drop (owning_guard\<lparr>guard_bpm := None\<rparr>) example_pool =
     Some (owning_guard\<lparr>guard_bpm := None\<rparr>, example_pool, [])"
  by (simp add: BasicPageGuard_assign_def BasicPageGuard_move_def WritePageGuard_assign_def
      Drop_def UnpinPage_def Unpin_def empty_guard_def owning_guard_def example_pool_def)

end
